theory Spec2Isabelle
  imports Main "HOL-Library.Sublist"
begin

section \<open>Text and the character categories of the regular expressions\<close>

text \<open>
  \<^verbatim>\<open>update_layout.py\<close> reads one layout file into a Python \<^verbatim>\<open>str\<close>, rewrites it with
  five calls of \<^verbatim>\<open>re.sub\<close> and writes it back. A Python \<^verbatim>\<open>str\<close> is a sequence of Unicode
  code points, so a text is a list of code points; \<open>str\<close> embeds an ASCII literal of the
  script.
\<close>

type_synonym ustring = "nat list"

definition str :: "string \<Rightarrow> ustring" where
  "str s = map of_char s"

text \<open>
  In a \<^verbatim>\<open>str\<close> pattern \<^verbatim>\<open>\d\<close> is a Unicode decimal digit and \<^verbatim>\<open>\s\<close> a Unicode
  whitespace character (\<^verbatim>\<open>str.isdecimal\<close> and \<^verbatim>\<open>str.isspace\<close> of one character). The
  tables are those of the Unicode character database 14.0 (CPython 3.11): the runs of
  decimal digits as pairs of first and last code point, and the whitespace code points.
\<close>

definition decimal_runs :: "(nat \<times> nat) list" where
  "decimal_runs =
    [(48, 57), (1632, 1641), (1776, 1785), (1984, 1993), (2406, 2415), (2534, 2543),
     (2662, 2671), (2790, 2799), (2918, 2927), (3046, 3055), (3174, 3183), (3302, 3311),
     (3430, 3439), (3558, 3567), (3664, 3673), (3792, 3801), (3872, 3881), (4160, 4169),
     (4240, 4249), (6112, 6121), (6160, 6169), (6470, 6479), (6608, 6617), (6784, 6793),
     (6800, 6809), (6992, 7001), (7088, 7097), (7232, 7241), (7248, 7257), (42528, 42537),
     (43216, 43225), (43264, 43273), (43472, 43481), (43504, 43513), (43600, 43609),
     (44016, 44025), (65296, 65305), (66720, 66729), (68912, 68921), (69734, 69743),
     (69872, 69881), (69942, 69951), (70096, 70105), (70384, 70393), (70736, 70745),
     (70864, 70873), (71248, 71257), (71360, 71369), (71472, 71481), (71904, 71913),
     (72016, 72025), (72784, 72793), (73040, 73049), (73120, 73129), (92768, 92777),
     (92864, 92873), (93008, 93017), (120782, 120831), (123200, 123209), (123632, 123641),
     (125264, 125273), (130032, 130041)]"

definition whitespace_points :: "nat list" where
  "whitespace_points =
    [9, 10, 11, 12, 13, 28, 29, 30, 31, 32, 133, 160, 5760, 8192, 8193, 8194, 8195, 8196,
     8197, 8198, 8199, 8200, 8201, 8202, 8232, 8233, 8239, 8287, 12288]"

definition isdecimal :: "nat \<Rightarrow> bool" where
  "isdecimal c = list_ex (\<lambda>(lo, hi). lo \<le> c \<and> c \<le> hi) decimal_runs"

definition isspace :: "nat \<Rightarrow> bool" where
  "isspace c = (c \<in> set whitespace_points)"

datatype category = Digit | Space | NotSpace

fun in_category :: "category \<Rightarrow> nat \<Rightarrow> bool" where
  "in_category Digit c = isdecimal c"
| "in_category Space c = isspace c"
| "in_category NotSpace c = (\<not> isspace c)"

text \<open>A character set \<^verbatim>\<open>[...]\<close> (or a lone category) is the union of its categories.\<close>

definition in_set :: "category list \<Rightarrow> nat \<Rightarrow> bool" where
  "in_set cs c = list_ex (\<lambda>k. in_category k c) cs"

section \<open>The regular expressions of the script\<close>

text \<open>
  The five patterns use literal characters, the categories \<^verbatim>\<open>\d\<close> and \<^verbatim>\<open>\s\<close>, the set
  \<^verbatim>\<open>[\s\S]\<close>, the greedy repeat \<^verbatim>\<open>+\<close> and the lazy repeat \<^verbatim>\<open>*?\<close> of one character set,
  concatenation and one capturing group. \<open>MaxRepeat lo cs\<close> is at least \<open>lo\<close> characters
  of \<open>cs\<close>, as many as possible first; \<open>MinRepeat lo cs\<close> is the same, as few as possible
  first.
\<close>

datatype regex =
    Literal ustring
  | Seq regex regex
  | MaxRepeat nat "category list"
  | MinRepeat nat "category list"
  | Group nat regex

type_synonym groups = "nat \<rightharpoonup> ustring"

text \<open>
  \<open>run cs s\<close> is the number of leading characters of \<open>s\<close> that lie in \<open>cs\<close>.
  \<open>matches r s g\<close> lists, in the order in which the backtracking matcher of \<^verbatim>\<open>re\<close>
  tries them, the ways \<open>r\<close> can match at the start of \<open>s\<close>: each is the text left after
  the match and the groups captured so far. The matcher takes the first one.
\<close>

definition run :: "category list \<Rightarrow> ustring \<Rightarrow> nat" where
  "run cs s = length (takeWhile (in_set cs) s)"

fun matches :: "regex \<Rightarrow> ustring \<Rightarrow> groups \<Rightarrow> (ustring \<times> groups) list" where
  "matches (Literal l) s g = (if prefix l s then [(drop (length l) s, g)] else [])"
| "matches (Seq a b) s g = concat (map (\<lambda>(s', g'). matches b s' g') (matches a s g))"
| "matches (MaxRepeat lo cs) s g = map (\<lambda>n. (drop n s, g)) (rev [lo ..< Suc (run cs s)])"
| "matches (MinRepeat lo cs) s g = map (\<lambda>n. (drop n s, g)) [lo ..< Suc (run cs s)]"
| "matches (Group k r) s g =
     map (\<lambda>(s', g'). (s', g'(k \<mapsto> take (length s - length s') s))) (matches r s g)"

text \<open>
  \<open>match_re r s\<close> is \<^verbatim>\<open>pattern.match\<close> at the start of \<open>s\<close>: the length of the match and
  its groups, or \<open>None\<close>.
\<close>

definition match_re :: "regex \<Rightarrow> ustring \<Rightarrow> (nat \<times> groups) option" where
  "match_re r s =
     (case matches r s Map.empty of
        [] \<Rightarrow> None
      | (s', g) # _ \<Rightarrow> Some (length s - length s', g))"

section \<open>Replacement templates and \<^verbatim>\<open>re.sub\<close>\<close>

text \<open>
  A replacement string is parsed into literal text (with \<^verbatim>\<open>\n\<close> read as a newline) and
  group references \<^verbatim>\<open>\1\<close>. A group that took no part in the match expands to the empty
  string.
\<close>

datatype item = TLiteral ustring | TGroup nat

fun expand :: "item list \<Rightarrow> groups \<Rightarrow> ustring" where
  "expand [] g = []"
| "expand (TLiteral l # t) g = l @ expand t g"
| "expand (TGroup k # t) g = (case g k of None \<Rightarrow> [] | Some w \<Rightarrow> w) @ expand t g"

text \<open>
  \<^verbatim>\<open>re.sub(pattern, repl, string)\<close> with no \<^verbatim>\<open>count\<close> replaces every match, found from left
  to right, each search starting where the last match ended. \<open>sub_loop\<close> is that scan:
  at the current position either the pattern matches, the expanded template is emitted
  and the scan goes on behind the match, or one character is copied. (For an empty
  match the template is emitted and one character copied; none of the five patterns
  can match the empty string.)
\<close>

function sub_loop :: "regex \<Rightarrow> item list \<Rightarrow> ustring \<Rightarrow> ustring" where
  "sub_loop r t s =
     (case match_re r s of
        None \<Rightarrow> (case s of [] \<Rightarrow> [] | c # s' \<Rightarrow> c # sub_loop r t s')
      | Some (n, g) \<Rightarrow>
          if 0 < n then expand t g @ sub_loop r t (drop n s)
          else expand t g @ (case s of [] \<Rightarrow> [] | c # s' \<Rightarrow> c # sub_loop r t s'))"
  by pat_completeness auto
termination
  by (relation "measure (\<lambda>(r, t, s). length s)")
     (auto simp: match_re_def split: list.splits)

declare sub_loop.simps [simp del]

text \<open>
  \<^verbatim>\<open>re.sub\<close> raises \<^verbatim>\<open>re.error\<close> when the pattern or the template cannot be compiled.
  The five patterns are valid; what is left to check is that the template refers only
  to groups the pattern has.
\<close>

datatype error =
    ReError | FileNotFoundError | PermissionError | UnicodeDecodeError | UnicodeEncodeError

fun groups_of :: "regex \<Rightarrow> nat list" where
  "groups_of (Literal l) = []"
| "groups_of (Seq a b) = groups_of a @ groups_of b"
| "groups_of (MaxRepeat lo cs) = []"
| "groups_of (MinRepeat lo cs) = []"
| "groups_of (Group k r) = k # groups_of r"

fun refs_ok :: "regex \<Rightarrow> item list \<Rightarrow> bool" where
  "refs_ok r [] = True"
| "refs_ok r (TLiteral l # t) = refs_ok r t"
| "refs_ok r (TGroup k # t) = (List.member (groups_of r) k \<and> refs_ok r t)"

definition re_sub :: "regex \<Rightarrow> item list \<Rightarrow> ustring \<Rightarrow> error + ustring" where
  "re_sub r t s = (if refs_ok r t then Inr (sub_loop r t s) else Inl ReError)"

section \<open>The five rules of \<^verbatim>\<open>update_layout.py\<close>\<close>

text \<open>
  The patterns and replacement strings of the five \<^verbatim>\<open>re.sub\<close> calls, in the order of the
  script. \<^verbatim>\<open>\+\<close> is a literal plus sign, \<^verbatim>\<open>[\s\S]\<close> the set of \<^verbatim>\<open>\s\<close> and \<^verbatim>\<open>\S\<close>.
\<close>

definition any_char :: "category list" where
  "any_char = [Space, NotSpace]"

definition pattern1 :: regex where
  "pattern1 =
     Seq (Group 1
            (Seq (Literal (str ''android:id=\"@+id/cell_''))
            (Seq (MaxRepeat 1 [Digit])
            (Seq (Literal (str ''_''))
            (Seq (MaxRepeat 1 [Digit])
            (Seq (Literal (str ''\"''))
                 (MinRepeat 0 any_char)))))))
         (Literal (str ''android:textSize=\"18sp\"''))"

definition repl1 :: "item list" where
  "repl1 = [TGroup 1, TLiteral (str ''android:textSize=\"@dimen/bingo_cell_text_size\"'')]"

definition pattern2 :: regex where
  "pattern2 = Literal (str ''android:layout_margin=\"2dp\"'')"

definition repl2 :: "item list" where
  "repl2 = [TLiteral (str ''android:layout_margin=\"@dimen/cell_margin\"'')]"

definition pattern3 :: regex where
  "pattern3 =
     Seq (Group 1
            (Seq (Literal (str ''android:id=\"@+id/cell_2_2\"''))
                 (MinRepeat 0 any_char)))
         (Literal (str ''android:textSize=\"16sp\"''))"

definition repl3 :: "item list" where
  "repl3 = [TGroup 1, TLiteral (str ''android:textSize=\"@dimen/bingo_free_text_size\"'')]"

definition pattern4 :: regex where
  "pattern4 =
     Seq (Group 1
            (Seq (Literal (str ''android:id=\"@+id/actionButton\"''))
                 (MinRepeat 0 any_char)))
         (Literal (str ''android:textSize=\"16sp\"''))"

definition repl4 :: "item list" where
  "repl4 = [TGroup 1, TLiteral (str ''android:textSize=\"@dimen/button_text_size\"'')]"

definition pattern5 :: regex where
  "pattern5 =
     Seq (Literal (str ''android:layout_marginStart=\"32dp\"''))
    (Seq (MaxRepeat 1 [Space])
    (Seq (Literal (str ''android:layout_marginEnd=\"32dp\"''))
    (Seq (MaxRepeat 1 [Space])
         (Literal (str ''android:layout_marginBottom=\"24dp\"'')))))"

definition repl5 :: "item list" where
  "repl5 =
     [TLiteral (str ''android:layout_marginStart=\"@dimen/button_margin_horizontal\"'' @ [10] @
                str ''        android:layout_marginEnd=\"@dimen/button_margin_horizontal\"'' @ [10] @
                str ''        android:layout_marginBottom=\"@dimen/button_margin_bottom\"'')]"

definition rule1 :: "ustring \<Rightarrow> error + ustring" where
  "rule1 content = re_sub pattern1 repl1 content"

definition rule2 :: "ustring \<Rightarrow> error + ustring" where
  "rule2 content = re_sub pattern2 repl2 content"

definition rule3 :: "ustring \<Rightarrow> error + ustring" where
  "rule3 content = re_sub pattern3 repl3 content"

definition rule4 :: "ustring \<Rightarrow> error + ustring" where
  "rule4 content = re_sub pattern4 repl4 content"

definition rule5 :: "ustring \<Rightarrow> error + ustring" where
  "rule5 content = re_sub pattern5 repl5 content"

text \<open>
  The script rebinds \<^verbatim>\<open>content\<close> five times, each call reading the result of the one
  before; an exception in any call ends the run.
\<close>

definition bind :: "error + 'a \<Rightarrow> ('a \<Rightarrow> error + 'b) \<Rightarrow> error + 'b" where
  "bind m f = (case m of Inl e \<Rightarrow> Inl e | Inr x \<Rightarrow> f x)"

definition transform :: "ustring \<Rightarrow> error + ustring" where
  "transform content =
     bind (rule1 content) (\<lambda>content.
     bind (rule2 content) (\<lambda>content.
     bind (rule3 content) (\<lambda>content.
     bind (rule4 content) (\<lambda>content.
     rule5 content))))"

section \<open>Text files: UTF-8 and newline translation\<close>

text \<open>
  Both \<^verbatim>\<open>open\<close> calls of the script pass \<^verbatim>\<open>encoding='utf-8'\<close> and no \<^verbatim>\<open>newline\<close>, so the
  file is a text file in universal-newlines mode. A file holds bytes; a byte is a
  \<^typ>\<open>char\<close>, read as a number below 256 by \<^const>\<open>of_char\<close>.

  \<open>decode_utf8\<close> is the strict UTF-8 decoder: it accepts the well-formed sequences of one
  to four bytes (no overlong form, no surrogate, nothing above \<^verbatim>\<open>U+10FFFF\<close>) and is \<open>None\<close>
  on anything else, where Python raises \<^verbatim>\<open>UnicodeDecodeError\<close>. \<open>encode_utf8\<close> is the strict
  encoder: it is \<open>None\<close> on a surrogate, where Python raises \<^verbatim>\<open>UnicodeEncodeError\<close> (and
  on a number that is no code point).
\<close>

definition continuation :: "nat \<Rightarrow> bool" where
  "continuation b = (128 \<le> b \<and> b < 192)"

fun decode_utf8 :: "nat list \<Rightarrow> ustring option" where
  "decode_utf8 [] = Some []"
| "decode_utf8 (b # bs) =
     (if b < 128 then map_option (Cons b) (decode_utf8 bs)
      else if 194 \<le> b \<and> b < 224 then
        (case bs of
           b1 # r \<Rightarrow>
             if continuation b1
             then map_option (Cons ((b - 192) * 64 + (b1 - 128))) (decode_utf8 r)
             else None
         | _ \<Rightarrow> None)
      else if 224 \<le> b \<and> b < 240 then
        (case bs of
           b1 # b2 # r \<Rightarrow>
             if continuation b1 \<and> continuation b2 \<and>
                2048 \<le> (b - 224) * 4096 + (b1 - 128) * 64 + (b2 - 128) \<and>
                \<not> (55296 \<le> (b - 224) * 4096 + (b1 - 128) * 64 + (b2 - 128) \<and>
                   (b - 224) * 4096 + (b1 - 128) * 64 + (b2 - 128) < 57344)
             then map_option (Cons ((b - 224) * 4096 + (b1 - 128) * 64 + (b2 - 128))) (decode_utf8 r)
             else None
         | _ \<Rightarrow> None)
      else if 240 \<le> b \<and> b < 245 then
        (case bs of
           b1 # b2 # b3 # r \<Rightarrow>
             if continuation b1 \<and> continuation b2 \<and> continuation b3 \<and>
                65536 \<le> (b - 240) * 262144 + (b1 - 128) * 4096 + (b2 - 128) * 64 + (b3 - 128) \<and>
                (b - 240) * 262144 + (b1 - 128) * 4096 + (b2 - 128) * 64 + (b3 - 128) < 1114112
             then map_option
                    (Cons ((b - 240) * 262144 + (b1 - 128) * 4096 + (b2 - 128) * 64 + (b3 - 128)))
                    (decode_utf8 r)
             else None
         | _ \<Rightarrow> None)
      else None)"

definition encode_point :: "nat \<Rightarrow> nat list option" where
  "encode_point c =
     (if c < 128 then Some [c]
      else if c < 2048 then Some [192 + c div 64, 128 + c mod 64]
      else if c < 65536 then
        (if 55296 \<le> c \<and> c < 57344 then None
         else Some [224 + c div 4096, 128 + c div 64 mod 64, 128 + c mod 64])
      else if c < 1114112 then
        Some [240 + c div 262144, 128 + c div 4096 mod 64, 128 + c div 64 mod 64, 128 + c mod 64]
      else None)"

fun encode_utf8 :: "ustring \<Rightarrow> nat list option" where
  "encode_utf8 [] = Some []"
| "encode_utf8 (c # s) =
     (case encode_point c of
        None \<Rightarrow> None
      | Some bs \<Rightarrow> map_option (append bs) (encode_utf8 s))"

text \<open>
  On reading, with \<^verbatim>\<open>newline=None\<close>, the line endings \<^verbatim>\<open>\r\n\<close> and \<^verbatim>\<open>\r\<close> are turned into
  \<^verbatim>\<open>\n\<close>. On writing, every \<^verbatim>\<open>\n\<close> is turned into \<^verbatim>\<open>os.linesep\<close>, which is \<^verbatim>\<open>\n\<close> on
  POSIX and \<^verbatim>\<open>\r\n\<close> on Windows.
\<close>

fun universal_newlines :: "ustring \<Rightarrow> ustring" where
  "universal_newlines [] = []"
| "universal_newlines [c] = [if c = 13 then 10 else c]"
| "universal_newlines (c # d # s) =
     (if c = 13 \<and> d = 10 then 10 # universal_newlines s
      else if c = 13 then 10 # universal_newlines (d # s)
      else c # universal_newlines (d # s))"

datatype platform = Posix | Windows

fun linesep :: "platform \<Rightarrow> ustring" where
  "linesep Posix = [10]"
| "linesep Windows = [13, 10]"

definition write_newlines :: "platform \<Rightarrow> ustring \<Rightarrow> ustring" where
  "write_newlines pf s = concat (map (\<lambda>c. if c = 10 then linesep pf else [c]) s)"

section \<open>The run of the script: read, transform, write back, report\<close>

text \<open>
  The world of the script is the file system, the console and the platform. A file has
  its bytes and whether this process may read and write it. \<^verbatim>\<open>open(path, 'r')\<close> fails on
  a missing or unreadable file; \<^verbatim>\<open>f.read()\<close> decodes all the bytes and translates the line
  endings, or fails on bytes that are not UTF-8. \<^verbatim>\<open>open(path, 'w')\<close> fails on an
  unwritable file and otherwise truncates (or creates) it; \<^verbatim>\<open>f.write\<close> translates the line
  endings, encodes the whole text and appends the bytes to the open file, or fails, with
  nothing written, on a text that cannot be encoded. \<^verbatim>\<open>print\<close> adds a line to the console.
  Nothing catches an exception: it ends the run.
\<close>

record file_state =
  contents :: string
  readable :: bool
  writable :: bool

record world =
  files :: "string \<rightharpoonup> file_state"
  console :: "ustring list"
  os :: platform

fun join :: "'a list \<Rightarrow> 'a list list \<Rightarrow> 'a list" where
  "join sep [] = []"
| "join sep [x] = x"
| "join sep (x # y # xs) = x @ sep @ join sep (y # xs)"

text \<open>The path is the fixed raw string of the script, its components joined by backslashes.\<close>

definition layout_path :: string where
  "layout_path =
     join [CHR 0x5C]
       [''C:'', ''Users'', ''Manson'', ''AndroidStudioProjects'', ''bingodemo'', ''app'', ''src'',
        ''main'', ''res'', ''layout'', ''activity_main.xml'']"

definition open_read :: "world \<Rightarrow> string \<Rightarrow> error + string" where
  "open_read w p =
     (case files w p of
        None \<Rightarrow> Inl FileNotFoundError
      | Some f \<Rightarrow> if readable f then Inr (contents f) else Inl PermissionError)"

definition file_read :: "string \<Rightarrow> error + ustring" where
  "file_read bytes =
     (case decode_utf8 (map of_char bytes) of
        None \<Rightarrow> Inl UnicodeDecodeError
      | Some s \<Rightarrow> Inr (universal_newlines s))"

definition open_write :: "world \<Rightarrow> string \<Rightarrow> error + world" where
  "open_write w p =
     (case files w p of
        None \<Rightarrow> Inr (w\<lparr>files := (files w)(p \<mapsto> \<lparr>contents = [], readable = True, writable = True\<rparr>)\<rparr>)
      | Some f \<Rightarrow>
          if writable f then Inr (w\<lparr>files := (files w)(p \<mapsto> f\<lparr>contents := []\<rparr>)\<rparr>)
          else Inl PermissionError)"

definition file_write :: "world \<Rightarrow> string \<Rightarrow> ustring \<Rightarrow> error + world" where
  "file_write w p s =
     (case encode_utf8 (write_newlines (os w) s) of
        None \<Rightarrow> Inl UnicodeEncodeError
      | Some bytes \<Rightarrow>
          (case files w p of
             None \<Rightarrow> Inr w
           | Some f \<Rightarrow>
               Inr (w\<lparr>files := (files w)(p \<mapsto> f\<lparr>contents := contents f @ map char_of bytes\<rparr>)\<rparr>)))"

definition print :: "world \<Rightarrow> ustring \<Rightarrow> world" where
  "print w s = w\<lparr>console := console w @ [s]\<rparr>"

text \<open>
  \<open>main\<close> returns the exception that ended the run, if any, and the world it leaves. An
  exception of \<^verbatim>\<open>f.write\<close> would leave the file truncated by the \<^verbatim>\<open>open\<close> before it.
\<close>

definition main :: "world \<Rightarrow> error option \<times> world" where
  "main w =
     (case open_read w layout_path of
        Inl e \<Rightarrow> (Some e, w)
      | Inr bytes \<Rightarrow>
          (case file_read bytes of
             Inl e \<Rightarrow> (Some e, w)
           | Inr content \<Rightarrow>
               (case transform content of
                  Inl e \<Rightarrow> (Some e, w)
                | Inr content \<Rightarrow>
                    (case open_write w layout_path of
                       Inl e \<Rightarrow> (Some e, w)
                     | Inr w' \<Rightarrow>
                         (case file_write w' layout_path content of
                            Inl e \<Rightarrow> (Some e, w')
                          | Inr w'' \<Rightarrow> (None, print w'' (str ''Layout updated successfully!'')))))))"

section \<open>Auxiliary notions for stating the properties\<close>

text \<open>
  \<open>search_re r s\<close> is \<^verbatim>\<open>pattern.search\<close>: the first position of \<open>s\<close> at which \<open>r\<close> matches,
  with the length and the groups of that match; \<open>None\<close> when \<open>r\<close> matches nowhere in \<open>s\<close>.
\<close>

fun search_re :: "regex \<Rightarrow> ustring \<Rightarrow> (nat \<times> nat \<times> groups) option" where
  "search_re r [] = (case match_re r [] of Some (n, g) \<Rightarrow> Some (0, n, g) | None \<Rightarrow> None)"
| "search_re r (c # s) =
     (case match_re r (c # s) of
        Some (n, g) \<Rightarrow> Some (0, n, g)
      | None \<Rightarrow> (case search_re r s of Some (k, n, g) \<Rightarrow> Some (Suc k, n, g) | None \<Rightarrow> None))"

text \<open>
  Names for the literal texts of the five rules: the attribute each pattern looks for and
  the attribute each replacement writes (\<open>block_ref\<close> is the replacement of rule 5: three
  attributes, the second and the third each behind a newline and eight spaces).
\<close>

definition cell_prefix :: ustring where
  "cell_prefix = str ''android:id=\"@+id/cell_''"

definition size18 :: ustring where
  "size18 = str ''android:textSize=\"18sp\"''"

definition size18_ref :: ustring where
  "size18_ref = str ''android:textSize=\"@dimen/bingo_cell_text_size\"''"

definition margin2 :: ustring where
  "margin2 = str ''android:layout_margin=\"2dp\"''"

definition margin2_ref :: ustring where
  "margin2_ref = str ''android:layout_margin=\"@dimen/cell_margin\"''"

definition cell22 :: ustring where
  "cell22 = str ''android:id=\"@+id/cell_2_2\"''"

definition size16 :: ustring where
  "size16 = str ''android:textSize=\"16sp\"''"

definition free_ref :: ustring where
  "free_ref = str ''android:textSize=\"@dimen/bingo_free_text_size\"''"

definition button_id :: ustring where
  "button_id = str ''android:id=\"@+id/actionButton\"''"

definition button_ref :: ustring where
  "button_ref = str ''android:textSize=\"@dimen/button_text_size\"''"

definition start32 :: ustring where
  "start32 = str ''android:layout_marginStart=\"32dp\"''"

definition end32 :: ustring where
  "end32 = str ''android:layout_marginEnd=\"32dp\"''"

definition bottom24 :: ustring where
  "bottom24 = str ''android:layout_marginBottom=\"24dp\"''"

definition block_ref :: ustring where
  "block_ref = str ''android:layout_marginStart=\"@dimen/button_margin_horizontal\"'' @ [10] @
               str ''        android:layout_marginEnd=\"@dimen/button_margin_horizontal\"'' @ [10] @
               str ''        android:layout_marginBottom=\"@dimen/button_margin_bottom\"''"

text \<open>
  A digit sequence is a non-empty text of decimal digits, a whitespace sequence a
  non-empty text of whitespace. \<open>cell_id r c\<close> is the identifier attribute of the cell in
  row \<open>r\<close> and column \<open>c\<close>, as rule 1 reads it.
\<close>

definition digits :: "ustring \<Rightarrow> bool" where
  "digits r = (r \<noteq> [] \<and> list_all isdecimal r)"

definition spaces :: "ustring \<Rightarrow> bool" where
  "spaces ws = (ws \<noteq> [] \<and> list_all isspace ws)"

definition cell_id :: "ustring \<Rightarrow> ustring \<Rightarrow> ustring" where
  "cell_id r c = cell_prefix @ r @ str ''_'' @ c @ str ''\"''"

definition is_cell_id :: "ustring \<Rightarrow> bool" where
  "is_cell_id w = (\<exists>r c. digits r \<and> digits c \<and> w = cell_id r c)"

text \<open>
  \<open>occurrences l s\<close> counts the positions of \<open>s\<close> at which the text \<open>l\<close> starts.
\<close>

fun occurrences :: "ustring \<Rightarrow> ustring \<Rightarrow> nat" where
  "occurrences l [] = 0"
| "occurrences l (c # s) = (if prefix l (c # s) then 1 else 0) + occurrences l s"

text \<open>
  The shapes of the patterns, for the proofs. \<open>scan a b\<close> is the pattern of rules 3 and
  4: the literal \<open>a\<close>, then lazily any characters, captured together as group 1, then
  the literal \<open>b\<close>. \<open>cell_group\<close> is the inside of the group of rule 1. \<open>scans r H b\<close>
  says what such a pattern \<open>r\<close> matches at the start of a text: a head \<open>a\<close> accepted by
  \<open>H\<close>, the shortest text \<open>mid\<close> behind it that is followed by \<open>b\<close>, and \<open>b\<close>; group 1
  is the head and \<open>mid\<close>. A pattern is local when a match depends on the matched text
  only.
\<close>

definition scan :: "ustring \<Rightarrow> ustring \<Rightarrow> regex" where
  "scan a b = Seq (Group 1 (Seq (Literal a) (MinRepeat 0 any_char))) (Literal b)"

definition cell_group :: regex where
  "cell_group =
     Seq (Literal (str ''android:id=\"@+id/cell_''))
    (Seq (MaxRepeat 1 [Digit])
    (Seq (Literal (str ''_''))
    (Seq (MaxRepeat 1 [Digit])
    (Seq (Literal (str ''\"''))
         (MinRepeat 0 any_char)))))"

definition scans :: "regex \<Rightarrow> (ustring \<Rightarrow> bool) \<Rightarrow> ustring \<Rightarrow> bool" where
  "scans r H b = (\<forall>s n g. match_re r s = Some (n, g) \<longleftrightarrow>
     (\<exists>a mid rest. H a \<and> s = a @ mid @ b @ rest \<and> \<not> sublist b (mid @ butlast b) \<and>
        n = length a + length mid + length b \<and> g = [1 \<mapsto> a @ mid]))"

definition local_re :: "regex \<Rightarrow> bool" where
  "local_re r = (\<forall>s n g. match_re r s = Some (n, g) \<longrightarrow>
      0 < n \<and> n \<le> length s \<and> (\<forall>x. match_re r (take n s @ x) = Some (n, g)))"

text \<open>
  Every attribute of the rules starts with the letters \<open>an\<close> of \<^verbatim>\<open>android:\<close> and has no
  second \<open>an\<close>. A text is anchored when it starts with \<open>an\<close>, has no other \<open>a\<close> directly
  followed by \<open>n\<close> and does not end with \<open>a\<close>: two anchored texts cannot overlap.
\<close>

fun no_an :: "ustring \<Rightarrow> bool" where
  "no_an [] = True"
| "no_an [x] = (x \<noteq> 97)"
| "no_an (x # y # zs) = (\<not> (x = 97 \<and> y = 110) \<and> no_an (y # zs))"

definition anchored :: "ustring \<Rightarrow> bool" where
  "anchored w = (prefix [97, 110] w \<and> no_an (tl w))"

text \<open>
  A scalar value is a code point that is no surrogate: what UTF-8 can encode.
\<close>

definition scalar :: "nat \<Rightarrow> bool" where
  "scalar c = (c < 1114112 \<and> \<not> (55296 \<le> c \<and> c < 57344))"

fun literals :: "item list \<Rightarrow> nat set" where
  "literals [] = {}"
| "literals (TLiteral l # t) = set l \<union> literals t"
| "literals (TGroup k # t) = literals t"

section \<open>Basic facts about the scan\<close>

lemma sub_loop_Nil: "match_re r [] = None \<Longrightarrow> sub_loop r t [] = []"
  by (simp add: sub_loop.simps)

lemma sub_loop_skip: "match_re r (c # s) = None \<Longrightarrow> sub_loop r t (c # s) = c # sub_loop r t s"
  by (simp add: sub_loop.simps)

lemma sub_loop_hit:
  "match_re r s = Some (n, g) \<Longrightarrow> 0 < n \<Longrightarrow> sub_loop r t s = expand t g @ sub_loop r t (drop n s)"
  by (simp add: sub_loop.simps)

lemma rules_Inr:
  "rule1 d = Inr (sub_loop pattern1 repl1 d)"
  "rule2 d = Inr (sub_loop pattern2 repl2 d)"
  "rule3 d = Inr (sub_loop pattern3 repl3 d)"
  "rule4 d = Inr (sub_loop pattern4 repl4 d)"
  "rule5 d = Inr (sub_loop pattern5 repl5 d)"
  by (simp_all add: rule1_def rule2_def rule3_def rule4_def rule5_def re_sub_def
      pattern1_def pattern2_def pattern3_def pattern4_def pattern5_def
      repl1_def repl2_def repl3_def repl4_def repl5_def)

lemma transform_Inr:
  "transform d = Inr (sub_loop pattern5 repl5 (sub_loop pattern4 repl4
     (sub_loop pattern3 repl3 (sub_loop pattern2 repl2 (sub_loop pattern1 repl1 d)))))"
  by (simp add: transform_def bind_def rules_Inr)

text \<open>Every pattern starts with the letter \<open>a\<close> of \<^verbatim>\<open>android:\<close>, so it matches nowhere else.\<close>

lemma no_match_other_char:
  "c \<noteq> 97 \<Longrightarrow> match_re pattern1 (c # s) = None"
  "c \<noteq> 97 \<Longrightarrow> match_re pattern2 (c # s) = None"
  "c \<noteq> 97 \<Longrightarrow> match_re pattern3 (c # s) = None"
  "c \<noteq> 97 \<Longrightarrow> match_re pattern4 (c # s) = None"
  "c \<noteq> 97 \<Longrightarrow> match_re pattern5 (c # s) = None"
  by (simp_all add: match_re_def pattern1_def pattern2_def pattern3_def pattern4_def
      pattern5_def str_def)

lemma no_match_Nil:
  "match_re pattern1 [] = None"
  "match_re pattern2 [] = None"
  "match_re pattern3 [] = None"
  "match_re pattern4 [] = None"
  "match_re pattern5 [] = None"
  by (simp_all add: match_re_def pattern1_def pattern2_def pattern3_def pattern4_def
      pattern5_def str_def)

lemma search_None_sub_loop: "search_re r s = None \<Longrightarrow> sub_loop r t s = s"
  by (induction s) (auto simp: sub_loop_Nil sub_loop_skip split: option.splits)


lemmas eval_simps = sub_loop_Nil sub_loop_skip sub_loop_hit no_match_other_char no_match_Nil
  match_re_def run_def in_set_def isspace_def isdecimal_def whitespace_points_def
  decimal_runs_def any_char_def

section \<open>Lemmas about matching and scanning\<close>

lemma sublist_iff_drop: "sublist w s \<longleftrightarrow> (\<exists>k. prefix w (drop k s))"
proof
  assume "sublist w s"
  then obtain ps ss where "s = ps @ w @ ss" by (auto simp: sublist_def)
  then have "prefix w (drop (length ps) s)" by simp
  then show "\<exists>k. prefix w (drop k s)" ..
next
  assume "\<exists>k. prefix w (drop k s)"
  then obtain k zs where "drop k s = w @ zs" by (auto simp: prefix_def)
  then have "s = take k s @ w @ zs" by (metis append_take_drop_id)
  then show "sublist w s" by (auto simp: sublist_def)
qed

lemma no_an_drop: "no_an zs \<Longrightarrow> j < length zs \<Longrightarrow> \<not> prefix [97, 110] (drop j zs @ rest)"
proof (induction zs arbitrary: j rule: no_an.induct)
  case 1
  then show ?case by simp
next
  case (2 x)
  then show ?case by (cases rest) auto
next
  case (3 x y zs)
  show ?case
  proof (cases j)
    case 0
    with 3 show ?thesis by auto
  next
    case (Suc j')
    with 3 show ?thesis by auto
  qed
qed

lemma anchored_no_overlap:
  assumes "anchored X" and X: "prefix X (drop k d)" and Y: "prefix [97, 110] (drop k' d)"
    and "k < k'"
  shows "k + length X \<le> k'"
proof (rule ccontr)
  assume "\<not> k + length X \<le> k'"
  then have lt: "k' - k < length X" using \<open>k < k'\<close> by simp
  obtain rest where d: "drop k d = X @ rest" using X by (auto simp: prefix_def)
  obtain i where i: "k' - k = Suc i" using \<open>k < k'\<close> by (cases "k' - k") auto
  have "drop k' d = drop (k' - k) (drop k d)" using \<open>k < k'\<close> by simp
  also have "\<dots> = drop (Suc i) X @ rest" using d lt i by simp
  also have "\<dots> = drop i (tl X) @ rest" by (simp add: drop_Suc)
  finally have "drop k' d = drop i (tl X) @ rest" .
  moreover have "i < length (tl X)" using lt i by simp
  moreover have "no_an (tl X)" using \<open>anchored X\<close> by (simp add: anchored_def)
  ultimately show False using no_an_drop Y by metis
qed

lemma run_any_char: "run any_char s = length s"
  by (simp add: run_def any_char_def in_set_def takeWhile_eq_all_conv[THEN iffD2])

lemma concat_map_if:
  "concat (map (\<lambda>n. if P n then [f n] else []) xs) = map f (filter P xs)"
  by (induction xs) auto

lemma filter_upt_Cons:
  "filter P [0..<m] = n # ns \<Longrightarrow> P n \<and> n < m \<and> (\<forall>j<n. \<not> P j)"
proof (induction m arbitrary: ns)
  case 0
  then show ?case by simp
next
  case (Suc m)
  show ?case
  proof (cases "filter P [0..<m]")
    case Nil
    then have none: "\<forall>j<m. \<not> P j" by (auto simp: filter_empty_conv)
    from Suc.prems Nil have "P m" "n = m" by (auto split: if_splits)
    with none show ?thesis by simp
  next
    case (Cons a as)
    with Suc.prems have "a = n" by (auto split: if_splits)
    with Cons Suc.IH show ?thesis by (metis less_Suc_eq)
  qed
qed

lemma filter_upt_first:
  assumes "P j" "\<forall>i<j. \<not> P i" "j < m"
  shows "\<exists>ns. filter P [0..<m] = j # ns"
proof -
  have "filter P [0..<m] \<noteq> []" using assms by (auto simp: filter_empty_conv)
  then obtain n ns where f: "filter P [0..<m] = n # ns" by (cases "filter P [0..<m]") auto
  from filter_upt_Cons[OF f] have "P n" "\<forall>i<n. \<not> P i" by auto
  with assms have "n = j" by (metis linorder_neqE_nat)
  with f show ?thesis by simp
qed

lemma lazy_group_match:
  assumes G: "matches G s Map.empty =
      (if ok then map (\<lambda>j. (drop (h + j) s, Map.empty)) [0..<Suc (length s - h)] else [])"
    and b: "b \<noteq> []"
  shows "match_re (Seq (Group k G) (Literal b)) s = Some (n, g) \<longleftrightarrow>
     ok \<and> (\<exists>j. prefix b (drop (h + j) s) \<and> (\<forall>i<j. \<not> prefix b (drop (h + i) s)) \<and>
              n = h + j + length b \<and> g = [k \<mapsto> take (h + j) s])"
proof (cases ok)
  case False
  with G show ?thesis by (simp add: match_re_def)
next
  case True
  let ?P = "\<lambda>j. prefix b (drop (h + j) s)"
  let ?f = "\<lambda>j. (drop (length b) (drop (h + j) s), [k \<mapsto> take (length s - length (drop (h + j) s)) s])"
  let ?m = "Suc (length s - h)"
  have ms: "matches (Seq (Group k G) (Literal b)) s Map.empty = map ?f (filter ?P [0..<?m])"
    unfolding concat_map_if [symmetric]
    using G True by (simp add: o_def del: upt_Suc cong: if_cong)
  have mr: "match_re (Seq (Group k G) (Literal b)) s =
      (case filter ?P [0..<?m] of [] \<Rightarrow> None
       | j # _ \<Rightarrow> Some (length s - length (drop (length b) (drop (h + j) s)),
                          [k \<mapsto> take (length s - length (drop (h + j) s)) s]))"
    unfolding match_re_def ms by (simp split: list.splits del: upt_Suc)
  have plen: "\<And>j. ?P j \<Longrightarrow> h + j + length b \<le> length s"
  proof -
    fix j assume "?P j"
    then have "length b \<le> length (drop (h + j) s)" by (rule prefix_length_le)
    with b show "h + j + length b \<le> length s" by (cases "h + j \<le> length s") auto
  qed
  show ?thesis
  proof
    assume a: "match_re (Seq (Group k G) (Literal b)) s = Some (n, g)"
    then obtain j js where f: "filter ?P [0..<?m] = j # js"
      by (cases "filter ?P [0..<?m]") (auto simp: mr simp del: upt_Suc)
    from filter_upt_Cons[OF f] have j: "?P j" "\<forall>i<j. \<not> ?P i" by auto
    from a f have "n = length s - length (drop (length b) (drop (h + j) s))"
      "g = [k \<mapsto> take (length s - length (drop (h + j) s)) s]"
      by (auto simp: mr simp del: upt_Suc)
    with plen[OF j(1)] have "n = h + j + length b" "g = [k \<mapsto> take (h + j) s]" by auto
    with j True show "ok \<and> (\<exists>j. ?P j \<and> (\<forall>i<j. \<not> ?P i) \<and> n = h + j + length b \<and> g = [k \<mapsto> take (h + j) s])"
      by blast
  next
    assume "ok \<and> (\<exists>j. ?P j \<and> (\<forall>i<j. \<not> ?P i) \<and> n = h + j + length b \<and> g = [k \<mapsto> take (h + j) s])"
    then obtain j where j: "?P j" "\<forall>i<j. \<not> ?P i" "n = h + j + length b" "g = [k \<mapsto> take (h + j) s]"
      by blast
    from plen[OF j(1)] b have "j < ?m" by (cases b) auto
    from filter_upt_first[of ?P j ?m, OF j(1) j(2) this] obtain js where "filter ?P [0..<?m] = j # js" ..
    then show "match_re (Seq (Group k G) (Literal b)) s = Some (n, g)"
      using plen[OF j(1)] j(3,4) by (auto simp: mr simp del: upt_Suc)
  qed
qed

lemma prefix_drop_mono:
  assumes "prefix b (drop i u)" shows "prefix b (drop i (u @ v))"
proof (cases "i \<le> length u")
  case True
  then show ?thesis using assms by (simp add: prefix_prefix)
next
  case False
  then have "drop i u = []" by simp
  with assms have "b = []" by simp
  then show ?thesis by simp
qed

lemma first_occ_iff:
  assumes b: "b \<noteq> []"
  shows "(prefix b (drop j s) \<and> (\<forall>i<j. \<not> prefix b (drop i s))) \<longleftrightarrow>
         (\<exists>mid rest. s = mid @ b @ rest \<and> length mid = j \<and> \<not> sublist b (mid @ butlast b))"
proof
  assume a: "prefix b (drop j s) \<and> (\<forall>i<j. \<not> prefix b (drop i s))"
  then obtain rest where r: "drop j s = b @ rest" by (auto simp: prefix_def)
  have jl: "j \<le> length s" using r b by (cases "j \<le> length s") auto
  have s: "s = take j s @ b @ rest" using r by (metis append_take_drop_id)
  have bb: "b = butlast b @ [last b]" using b by simp
  have s': "s = (take j s @ butlast b) @ (last b # rest)"
    using s bb by (metis append.assoc append_Cons append_Nil)
  have "\<not> sublist b (take j s @ butlast b)"
  proof
    assume "sublist b (take j s @ butlast b)"
    then obtain i where i: "prefix b (drop i (take j s @ butlast b))"
      by (auto simp: sublist_iff_drop)
    then have "length b \<le> length (drop i (take j s @ butlast b))" by (rule prefix_length_le)
    then have "length b \<le> length (take j s @ butlast b) - i" by (simp only: length_drop)
    moreover have "length (take j s @ butlast b) = j + (length b - 1)" using jl by simp
    moreover have "0 < length b" using b by simp
    ultimately have "i < j" by arith
    moreover have "prefix b (drop i s)"
      by (subst s') (rule prefix_drop_mono[OF i])
    ultimately show False using a by blast
  qed
  with s jl show "\<exists>mid rest. s = mid @ b @ rest \<and> length mid = j \<and> \<not> sublist b (mid @ butlast b)"
    by (metis length_take min.absorb2)
next
  assume "\<exists>mid rest. s = mid @ b @ rest \<and> length mid = j \<and> \<not> sublist b (mid @ butlast b)"
  then obtain mid rest where s: "s = mid @ b @ rest" and j: "length mid = j"
    and ns: "\<not> sublist b (mid @ butlast b)" by blast
  have 1: "prefix b (drop j s)" using s j by simp
  have 2: "\<forall>i<j. \<not> prefix b (drop i s)"
  proof (intro allI impI notI)
    fix i assume i: "i < j" and p: "prefix b (drop i s)"
    have bb: "b = butlast b @ [last b]" using b by simp
    have "drop i s = (drop i mid @ butlast b) @ (last b # rest)"
      using s i j bb by (metis append.assoc append_Cons append_Nil drop_append less_imp_le_nat
          diff_is_0_eq drop0 less_or_eq_imp_le)
    moreover have "length b \<le> length (drop i mid @ butlast b)" using i j b by (cases b) auto
    ultimately have "prefix b (drop i mid @ butlast b)" using p
      by (metis prefix_length_prefix prefixI)
    then have "prefix b (drop i (mid @ butlast b))" using i j by simp
    then show False using ns by (auto simp: sublist_iff_drop)
  qed
  from 1 2 show "prefix b (drop j s) \<and> (\<forall>i<j. \<not> prefix b (drop i s))" ..
qed

lemma lazy_group_match_decomp:
  assumes G: "matches G s Map.empty =
      (if ok then map (\<lambda>j. (drop (h + j) s, Map.empty)) [0..<Suc (length s - h)] else [])"
    and b: "b \<noteq> []"
  shows "match_re (Seq (Group k G) (Literal b)) s = Some (n, g) \<longleftrightarrow>
     ok \<and> (\<exists>mid rest. drop h s = mid @ b @ rest \<and> \<not> sublist b (mid @ butlast b) \<and>
              n = h + length mid + length b \<and> g = [k \<mapsto> take h s @ mid])"
proof -
  have eq: "\<And>j. drop (h + j) s = drop j (drop h s)" by (simp add: add.commute)
  have tk: "\<And>mid rest. drop h s = mid @ b @ rest \<Longrightarrow> take (h + length mid) s = take h s @ mid"
    by (metis append_eq_conv_conj take_add)
  show ?thesis
    unfolding lazy_group_match[OF G b] eq
  proof (intro iffI conjI)
    assume a: "ok \<and> (\<exists>j. prefix b (drop j (drop h s)) \<and> (\<forall>i<j. \<not> prefix b (drop i (drop h s))) \<and>
        n = h + j + length b \<and> g = [k \<mapsto> take (h + j) s])"
    then show ok by simp
    from a obtain j where j: "prefix b (drop j (drop h s)) \<and> (\<forall>i<j. \<not> prefix b (drop i (drop h s)))"
      and n: "n = h + j + length b" and g: "g = [k \<mapsto> take (h + j) s]" by blast
    from j obtain mid rest where m: "drop h s = mid @ b @ rest" "length mid = j"
      "\<not> sublist b (mid @ butlast b)"
      using first_occ_iff[OF b, of j "drop h s"] by blast
    with n g tk[OF m(1)]
    show "\<exists>mid rest. drop h s = mid @ b @ rest \<and> \<not> sublist b (mid @ butlast b) \<and>
              n = h + length mid + length b \<and> g = [k \<mapsto> take h s @ mid]" by auto
  next
    assume a: "ok \<and> (\<exists>mid rest. drop h s = mid @ b @ rest \<and> \<not> sublist b (mid @ butlast b) \<and>
              n = h + length mid + length b \<and> g = [k \<mapsto> take h s @ mid])"
    then show ok by simp
    from a obtain mid rest where m: "drop h s = mid @ b @ rest" "\<not> sublist b (mid @ butlast b)"
      and n: "n = h + length mid + length b" and g: "g = [k \<mapsto> take h s @ mid]" by blast
    have "prefix b (drop (length mid) (drop h s)) \<and>
          (\<forall>i<length mid. \<not> prefix b (drop i (drop h s)))"
      using first_occ_iff[OF b, of "length mid" "drop h s"] m by blast
    with n g tk[OF m(1)]
    show "\<exists>j. prefix b (drop j (drop h s)) \<and> (\<forall>i<j. \<not> prefix b (drop i (drop h s))) \<and>
        n = h + j + length b \<and> g = [k \<mapsto> take (h + j) s]" by auto
  qed
qed



lemma max_repeat_then:
  assumes X: "\<And>s'. s' \<noteq> [] \<Longrightarrow> in_set cs (hd s') \<Longrightarrow> matches X s' g = []"
  shows "matches (Seq (MaxRepeat lo cs) X) s g =
     (if lo \<le> run cs s then matches X (drop (run cs s) s) g else [])"
proof -
  let ?k = "run cs s"
  have small: "matches X (drop n s) g = []" if "n < ?k" for n
  proof -
    from that have n: "n < length (takeWhile (in_set cs) s)" by (simp add: run_def)
    then have "n < length s" using length_takeWhile_le[of "in_set cs" s] by simp
    moreover have "in_set cs (s ! n)" using n by (metis nth_mem set_takeWhileD takeWhile_nth)
    ultimately show ?thesis by (intro X) (auto simp: hd_drop_conv_nth)
  qed
  have ms: "matches (Seq (MaxRepeat lo cs) X) s g =
      concat (map (\<lambda>n. matches X (drop n s) g) (rev [lo..<Suc ?k]))"
    by (simp add: o_def del: upt_Suc)
  show ?thesis
  proof (cases "lo \<le> ?k")
    case True
    then have "[lo..<Suc ?k] = [lo..<?k] @ [?k]" by simp
    moreover have "concat (map (\<lambda>n. matches X (drop n s) g) (rev [lo..<?k])) = []"
      using small by simp
    ultimately show ?thesis using True unfolding ms by simp
  next
    case False
    then show ?thesis unfolding ms by simp
  qed
qed

lemma run_append_stop:
  assumes "list_all (in_set cs) ws" and "t = [] \<or> \<not> in_set cs (hd t)"
  shows "run cs (ws @ t) = length ws"
proof -
  have "takeWhile (in_set cs) t = []" using assms(2) by (cases t) auto
  moreover have "takeWhile (in_set cs) (ws @ t) = ws @ takeWhile (in_set cs) t"
    using assms(1) by (intro takeWhile_append2) (simp add: list_all_iff)
  ultimately show ?thesis by (simp add: run_def)
qed

lemma run_split:
  "\<exists>ws t. s = ws @ t \<and> length ws = run cs s \<and> list_all (in_set cs) ws \<and>
          (t = [] \<or> \<not> in_set cs (hd t)) \<and> t = drop (run cs s) s"
proof -
  let ?ws = "takeWhile (in_set cs) s" and ?t = "dropWhile (in_set cs) s"
  have "s = ?ws @ ?t" by simp
  moreover have "length ?ws = run cs s" by (simp add: run_def)
  moreover have "list_all (in_set cs) ?ws" by (simp add: list_all_iff) (metis set_takeWhileD)
  moreover have "?t = [] \<or> \<not> in_set cs (hd ?t)" using hd_dropWhile by blast
  moreover have "?t = drop (run cs s) s" by (simp add: run_def dropWhile_eq_drop)
  ultimately show ?thesis by blast
qed

lemma max_repeat_fwd:
  assumes "list_all (in_set cs) ws" "lo \<le> length ws" "t = [] \<or> \<not> in_set cs (hd t)"
    and X: "\<And>s'. s' \<noteq> [] \<Longrightarrow> in_set cs (hd s') \<Longrightarrow> matches X s' g = []"
  shows "matches (Seq (MaxRepeat lo cs) X) (ws @ t) g = matches X t g"
proof -
  have "matches (Seq (MaxRepeat lo cs) X) (ws @ t) g =
      (if lo \<le> run cs (ws @ t) then matches X (drop (run cs (ws @ t)) (ws @ t)) g else [])"
    by (rule max_repeat_then[OF X])
  also have "\<dots> = matches X t g"
    using assms(2) run_append_stop[OF assms(1,3)] by simp
  finally show ?thesis .
qed

lemma max_repeat_inv:
  assumes X: "\<And>s'. s' \<noteq> [] \<Longrightarrow> in_set cs (hd s') \<Longrightarrow> matches X s' g = []"
    and ne: "matches (Seq (MaxRepeat lo cs) X) s g \<noteq> []"
  shows "\<exists>ws t. s = ws @ t \<and> list_all (in_set cs) ws \<and> lo \<le> length ws \<and>
           (t = [] \<or> \<not> in_set cs (hd t)) \<and> matches X t g \<noteq> []"
proof -
  have "matches (Seq (MaxRepeat lo cs) X) s g =
      (if lo \<le> run cs s then matches X (drop (run cs s) s) g else [])"
    by (rule max_repeat_then[OF X])
  with ne have lo: "lo \<le> run cs s" and m: "matches X (drop (run cs s) s) g \<noteq> []"
    by (auto simp del: matches.simps split: if_splits)
  from run_split[of s cs] lo m show ?thesis by metis
qed

lemma lit_rejects:
  "l \<noteq> [] \<Longrightarrow> s' \<noteq> [] \<Longrightarrow> hd s' \<noteq> hd l \<Longrightarrow> matches (Literal l) s' g = []"
  "l \<noteq> [] \<Longrightarrow> s' \<noteq> [] \<Longrightarrow> hd s' \<noteq> hd l \<Longrightarrow> matches (Seq (Literal l) R) s' g = []"
  by (cases l; cases s'; simp)+

lemma not_decimal [simp]: "\<not> isdecimal 95" "\<not> isdecimal 34" "\<not> isdecimal 97" "\<not> isdecimal 110"
  by (simp_all add: isdecimal_def decimal_runs_def)

lemma not_space [simp]: "\<not> isspace 97" "\<not> isspace 110"
  by (simp_all add: isspace_def whitespace_points_def)

lemma in_set_simps [simp]: "in_set [Digit] c = isdecimal c" "in_set [Space] c = isspace c"
  by (simp_all add: in_set_def)

lemma cell_group_fwd:
  assumes "digits r" "digits c"
  shows "matches cell_group (cell_id r c @ rest) g = map (\<lambda>j. (drop j rest, g)) [0..<Suc (length rest)]"
proof -
  let ?R2 = "Seq (Literal (str ''\"'')) (MinRepeat 0 any_char)"
  let ?R1 = "Seq (Literal (str ''_'')) (Seq (MaxRepeat 1 [Digit]) ?R2)"
  have r: "list_all (in_set [Digit]) r" "1 \<le> length r" and c: "list_all (in_set [Digit]) c" "1 \<le> length c"
    using assms by (auto simp: digits_def list_all_iff Suc_le_eq)
  have X2: "\<And>s'. s' \<noteq> [] \<Longrightarrow> in_set [Digit] (hd s') \<Longrightarrow> matches ?R2 s' g = []"
    by (rule lit_rejects) (auto simp: str_def)
  have X1: "\<And>s'. s' \<noteq> [] \<Longrightarrow> in_set [Digit] (hd s') \<Longrightarrow> matches ?R1 s' g = []"
    by (rule lit_rejects) (auto simp: str_def)
  have 2: "matches (Seq (MaxRepeat 1 [Digit]) ?R2) (c @ str ''\"'' @ rest) g = matches ?R2 (str ''\"'' @ rest) g"
    by (rule max_repeat_fwd[OF c _ X2]) (simp add: str_def)
  have 1: "matches (Seq (MaxRepeat 1 [Digit]) ?R1) (r @ str ''_'' @ c @ str ''\"'' @ rest) g
        = matches ?R1 (str ''_'' @ c @ str ''\"'' @ rest) g"
    by (rule max_repeat_fwd[OF r _ X1]) (simp add: str_def)
  have 3: "matches ?R2 (str ''\"'' @ rest) g = map (\<lambda>j. (drop j rest, g)) [0..<Suc (length rest)]"
    by (simp add: str_def run_any_char del: upt_Suc)
  have 4: "matches ?R1 (str ''_'' @ c @ str ''\"'' @ rest) g
        = matches (Seq (MaxRepeat 1 [Digit]) ?R2) (c @ str ''\"'' @ rest) g"
    by (simp add: str_def)
  have "matches cell_group (cell_id r c @ rest) g
        = matches (Seq (MaxRepeat 1 [Digit]) ?R1) (r @ str ''_'' @ c @ str ''\"'' @ rest) g"
    unfolding cell_group_def cell_id_def cell_prefix_def by simp
  with 1 2 3 4 show ?thesis by simp
qed

lemma matches_lit_seq:
  "matches (Seq (Literal l) R) s g = (if prefix l s then matches R (drop (length l) s) g else [])"
  by simp

declare matches.simps [simp del]

lemma cell_group_inv:
  assumes "matches cell_group s g \<noteq> []"
  shows "\<exists>r c rest. digits r \<and> digits c \<and> s = cell_id r c @ rest"
proof -
  let ?R2 = "Seq (Literal (str ''\"'')) (MinRepeat 0 any_char)"
  let ?R1 = "Seq (Literal (str ''_'')) (Seq (MaxRepeat 1 [Digit]) ?R2)"
  have X2: "\<And>s'. s' \<noteq> [] \<Longrightarrow> in_set [Digit] (hd s') \<Longrightarrow> matches ?R2 s' g = []"
    by (rule lit_rejects) (auto simp: str_def)
  have X1: "\<And>s'. s' \<noteq> [] \<Longrightarrow> in_set [Digit] (hd s') \<Longrightarrow> matches ?R1 s' g = []"
    by (rule lit_rejects) (auto simp: str_def)
  have e0: "matches cell_group s g =
      (if prefix cell_prefix s
       then matches (Seq (MaxRepeat 1 [Digit]) ?R1) (drop (length cell_prefix) s) g else [])"
    unfolding cell_group_def cell_prefix_def by (rule matches_lit_seq)
  from assms e0 obtain s1 where s: "s = cell_prefix @ s1"
    and 1: "matches (Seq (MaxRepeat 1 [Digit]) ?R1) s1 g \<noteq> []"
    by (auto simp: prefix_def split: if_splits)
  from max_repeat_inv[OF X1 1] obtain r t1 where r: "s1 = r @ t1" "list_all (in_set [Digit]) r"
    "1 \<le> length r" and 2: "matches ?R1 t1 g \<noteq> []" by blast
  from 2 obtain t2 where t1: "t1 = str ''_'' @ t2"
    and 3: "matches (Seq (MaxRepeat 1 [Digit]) ?R2) t2 g \<noteq> []"
    unfolding matches_lit_seq by (auto simp: prefix_def split: if_splits)
  from max_repeat_inv[OF X2 3] obtain c t3 where c: "t2 = c @ t3" "list_all (in_set [Digit]) c"
    "1 \<le> length c" and 4: "matches ?R2 t3 g \<noteq> []" by blast
  from 4 obtain rest where t3: "t3 = str ''\"'' @ rest"
    unfolding matches_lit_seq by (auto simp: prefix_def split: if_splits)
  have "digits r" "digits c" using r c by (auto simp: digits_def list_all_iff)
  moreover have "s = cell_id r c @ rest" using s r t1 c t3 by (simp add: cell_id_def)
  ultimately show ?thesis by blast
qed

lemma pattern1_eq: "pattern1 = Seq (Group 1 cell_group) (Literal size18)"
  by (simp add: pattern1_def cell_group_def size18_def)

lemma size18_ne [simp]: "size18 \<noteq> []" by (simp add: size18_def str_def)

lemma match_pattern1_iff:
  "match_re pattern1 s = Some (n, g) \<longleftrightarrow>
     (\<exists>r c mid rest. digits r \<and> digits c \<and> s = cell_id r c @ mid @ size18 @ rest \<and>
        \<not> sublist size18 (mid @ butlast size18) \<and>
        n = length (cell_id r c) + length mid + length size18 \<and> g = [1 \<mapsto> cell_id r c @ mid])"
  (is "?L \<longleftrightarrow> ?R")
proof
  assume L: ?L
  have "matches cell_group s Map.empty \<noteq> []"
  proof
    assume "matches cell_group s Map.empty = []"
    then have "match_re pattern1 s = None" by (simp add: pattern1_eq match_re_def matches.simps)
    with L show False by simp
  qed
  from cell_group_inv[OF this] obtain r c rest0 where d: "digits r" "digits c"
    and s: "s = cell_id r c @ rest0" by blast
  let ?h = "length (cell_id r c)"
  have G: "matches cell_group s Map.empty =
      (if True then map (\<lambda>j. (drop (?h + j) s, Map.empty)) [0..<Suc (length s - ?h)] else [])"
    using cell_group_fwd[OF d, of rest0 Map.empty] s by (simp del: upt_Suc)
  from L lazy_group_match_decomp[OF G size18_ne, of 1 n g] s d show ?R
    unfolding pattern1_eq by auto
next
  assume ?R
  then obtain r c mid rest where d: "digits r" "digits c"
    and s: "s = cell_id r c @ mid @ size18 @ rest"
    and ns: "\<not> sublist size18 (mid @ butlast size18)"
    and n: "n = length (cell_id r c) + length mid + length size18" and g: "g = [1 \<mapsto> cell_id r c @ mid]"
    by blast
  let ?h = "length (cell_id r c)"
  have G: "matches cell_group s Map.empty =
      (if True then map (\<lambda>j. (drop (?h + j) s, Map.empty)) [0..<Suc (length s - ?h)] else [])"
    using cell_group_fwd[OF d, of "mid @ size18 @ rest" Map.empty] s by (simp del: upt_Suc)
  show ?L unfolding pattern1_eq lazy_group_match_decomp[OF G size18_ne]
    using s ns n g by auto
qed

lemma lits_ne [simp]: "start32 \<noteq> []" "end32 \<noteq> []" "bottom24 \<noteq> []"
  "hd start32 = 97" "hd end32 = 97" "hd bottom24 = 97"
  by (simp_all add: start32_def end32_def bottom24_def str_def)

lemma pattern5_eq:
  "pattern5 = Seq (Literal start32) (Seq (MaxRepeat 1 [Space]) (Seq (Literal end32)
     (Seq (MaxRepeat 1 [Space]) (Literal bottom24))))"
  by (simp add: pattern5_def start32_def end32_def bottom24_def)

lemma space_rejects:
  "\<And>s'. s' \<noteq> [] \<Longrightarrow> in_set [Space] (hd s') \<Longrightarrow> matches (Literal bottom24) s' g = []"
  "\<And>s'. s' \<noteq> [] \<Longrightarrow> in_set [Space] (hd s') \<Longrightarrow> matches (Seq (Literal end32) R) s' g = []"
  by (rule lit_rejects; auto)+

lemma pattern5_fwd:
  assumes "spaces ws1" "spaces ws2"
  shows "matches pattern5 (start32 @ ws1 @ end32 @ ws2 @ bottom24 @ rest) g = [(rest, g)]"
proof -
  let ?X2 = "Literal bottom24"
  let ?X1 = "Seq (Literal end32) (Seq (MaxRepeat 1 [Space]) ?X2)"
  have w1: "list_all (in_set [Space]) ws1" "1 \<le> length ws1"
    and w2: "list_all (in_set [Space]) ws2" "1 \<le> length ws2"
    using assms by (auto simp: spaces_def list_all_iff Suc_le_eq)
  have "matches pattern5 (start32 @ ws1 @ end32 @ ws2 @ bottom24 @ rest) g
      = matches (Seq (MaxRepeat 1 [Space]) ?X1) (ws1 @ end32 @ ws2 @ bottom24 @ rest) g"
    unfolding pattern5_eq matches_lit_seq by simp
  also have "\<dots> = matches ?X1 (end32 @ ws2 @ bottom24 @ rest) g"
    by (rule max_repeat_fwd[OF w1 _ space_rejects(2)]) simp
  also have "\<dots> = matches (Seq (MaxRepeat 1 [Space]) ?X2) (ws2 @ bottom24 @ rest) g"
    unfolding matches_lit_seq by simp
  also have "\<dots> = matches ?X2 (bottom24 @ rest) g"
    by (rule max_repeat_fwd[OF w2 _ space_rejects(1)]) simp
  also have "\<dots> = [(rest, g)]" by (simp add: matches.simps)
  finally show ?thesis .
qed

lemma pattern5_inv:
  assumes "matches pattern5 s g \<noteq> []"
  shows "\<exists>ws1 ws2 rest. spaces ws1 \<and> spaces ws2 \<and> s = start32 @ ws1 @ end32 @ ws2 @ bottom24 @ rest"
proof -
  let ?X2 = "Literal bottom24"
  let ?X1 = "Seq (Literal end32) (Seq (MaxRepeat 1 [Space]) ?X2)"
  from assms obtain s1 where s: "s = start32 @ s1"
    and 1: "matches (Seq (MaxRepeat 1 [Space]) ?X1) s1 g \<noteq> []"
    unfolding pattern5_eq matches_lit_seq by (auto simp: prefix_def split: if_splits)
  from max_repeat_inv[OF space_rejects(2) 1] obtain ws1 t1 where w1: "s1 = ws1 @ t1"
    "list_all (in_set [Space]) ws1" "1 \<le> length ws1" and 2: "matches ?X1 t1 g \<noteq> []" by blast
  from 2 obtain t2 where t1: "t1 = end32 @ t2"
    and 3: "matches (Seq (MaxRepeat 1 [Space]) ?X2) t2 g \<noteq> []"
    unfolding matches_lit_seq by (auto simp: prefix_def split: if_splits)
  from max_repeat_inv[OF space_rejects(1) 3] obtain ws2 t3 where w2: "t2 = ws2 @ t3"
    "list_all (in_set [Space]) ws2" "1 \<le> length ws2" and 4: "matches ?X2 t3 g \<noteq> []" by blast
  from 4 obtain rest where t3: "t3 = bottom24 @ rest"
    by (auto simp: matches.simps prefix_def split: if_splits)
  have "spaces ws1" "spaces ws2" using w1 w2 by (auto simp: spaces_def list_all_iff)
  moreover have "s = start32 @ ws1 @ end32 @ ws2 @ bottom24 @ rest" using s w1 t1 w2 t3 by simp
  ultimately show ?thesis by blast
qed

lemma match_pattern5_iff:
  "match_re pattern5 s = Some (n, g) \<longleftrightarrow>
     (\<exists>ws1 ws2 rest. spaces ws1 \<and> spaces ws2 \<and> s = start32 @ ws1 @ end32 @ ws2 @ bottom24 @ rest \<and>
        n = length (start32 @ ws1 @ end32 @ ws2 @ bottom24) \<and> g = Map.empty)"
  (is "?L \<longleftrightarrow> ?R")
proof
  assume L: ?L
  then have "matches pattern5 s Map.empty \<noteq> []" by (auto simp: match_re_def)
  from pattern5_inv[OF this] obtain ws1 ws2 rest where w: "spaces ws1" "spaces ws2"
    and s: "s = start32 @ ws1 @ end32 @ ws2 @ bottom24 @ rest" by blast
  from pattern5_fwd[OF w, of rest Map.empty] L s
  have "n = length (start32 @ ws1 @ end32 @ ws2 @ bottom24)" "g = Map.empty"
    by (auto simp: match_re_def)
  with w s show ?R by blast
next
  assume ?R
  then obtain ws1 ws2 rest where w: "spaces ws1" "spaces ws2"
    and s: "s = start32 @ ws1 @ end32 @ ws2 @ bottom24 @ rest"
    and n: "n = length (start32 @ ws1 @ end32 @ ws2 @ bottom24)" "g = Map.empty" by blast
  from pattern5_fwd[OF w, of rest Map.empty] s n show ?L by (simp add: match_re_def)
qed

lemma match_literal_iff:
  "match_re (Literal l) s = Some (n, g) \<longleftrightarrow> prefix l s \<and> n = length l \<and> g = Map.empty"
  by (auto simp: match_re_def matches.simps dest: prefix_length_le)

lemma pattern_eqs:
  "pattern2 = Literal margin2"
  "pattern3 = scan cell22 size16"
  "pattern4 = scan button_id size16"
  by (simp_all add: pattern2_def pattern3_def pattern4_def scan_def margin2_def cell22_def
      size16_def button_id_def)

lemma repl_eqs:
  "repl1 = [TGroup 1, TLiteral size18_ref]"
  "repl2 = [TLiteral margin2_ref]"
  "repl3 = [TGroup 1, TLiteral free_ref]"
  "repl4 = [TGroup 1, TLiteral button_ref]"
  "repl5 = [TLiteral block_ref]"
  by (simp_all add: repl1_def repl2_def repl3_def repl4_def repl5_def size18_ref_def
      margin2_ref_def free_ref_def button_ref_def block_ref_def)

lemma local_re_extend:
  assumes "local_re r" "match_re r s = Some (n, g)"
  shows "match_re r (s @ x) = Some (n, g)" "0 < n" "n \<le> length s"
proof -
  from assms have *: "0 < n" "n \<le> length s" "\<And>x. match_re r (take n s @ x) = Some (n, g)"
    unfolding local_re_def by blast+
  from *(3)[of "drop n s @ x"] show "match_re r (s @ x) = Some (n, g)"
    by (metis append.assoc append_take_drop_id)
  show "0 < n" "n \<le> length s" by fact+
qed

lemma local_re_restrict:
  assumes "local_re r" "match_re r (s @ x) = Some (n, g)" "n \<le> length s"
  shows "match_re r s = Some (n, g)"
proof -
  from assms(1,2) have "match_re r (take n (s @ x) @ drop n s) = Some (n, g)"
    unfolding local_re_def by blast
  with assms(3) show ?thesis by simp
qed

lemma local_re_None:
  assumes "local_re r" "match_re r (s @ x) = None"
  shows "match_re r s = None"
  using assms local_re_extend(1) by (cases "match_re r s") fastforce+

lemma sub_loop_append:
  assumes loc: "local_re r"
    and ns: "\<And>k n g. k < length u \<Longrightarrow> match_re r (drop k (u @ v)) = Some (n, g) \<Longrightarrow>
               k + n \<le> length u"
  shows "sub_loop r t (u @ v) = sub_loop r t u @ sub_loop r t v"
  using ns
proof (induction u rule: length_induct)
  case (1 u)
  show ?case
  proof (cases u)
    case Nil
    have "match_re r [] = None"
    proof (cases "match_re r []")
      case (Some a)
      then show ?thesis using local_re_extend(2,3)[OF loc, of "[]" "fst a" "snd a"] by simp
    qed simp
    then show ?thesis using Nil by (simp add: sub_loop_Nil)
  next
    case (Cons c u')
    show ?thesis
    proof (cases "match_re r (u @ v)")
      case None
      then have nu: "match_re r u = None" by (rule local_re_None[OF loc])
      have "sub_loop r t (u' @ v) = sub_loop r t u' @ sub_loop r t v"
      proof (rule 1(1)[rule_format])
        show "length u' < length u" using Cons by simp
        fix k n g assume "k < length u'" "match_re r (drop k (u' @ v)) = Some (n, g)"
        then show "k + n \<le> length u'" using 1(2)[of "Suc k" n g] Cons by simp
      qed
      then show ?thesis using None nu Cons by (simp add: sub_loop_skip)
    next
      case (Some a)
      obtain n g where a: "a = (n, g)" by (cases a)
      have m: "match_re r (u @ v) = Some (n, g)" using Some a by simp
      have n: "0 < n" "n \<le> length u"
        using local_re_extend(2)[OF loc m] 1(2)[of 0 n g] m Cons by auto
      have mu: "match_re r u = Some (n, g)" by (rule local_re_restrict[OF loc m n(2)])
      have "sub_loop r t (drop n u @ v) = sub_loop r t (drop n u) @ sub_loop r t v"
      proof (rule 1(1)[rule_format])
        show "length (drop n u) < length u" using n Cons by simp
        fix k n' g'
        assume k: "k < length (drop n u)" and m': "match_re r (drop k (drop n u @ v)) = Some (n', g')"
        have kn: "k + n < length u" using k by simp
        moreover have "drop (k + n) (u @ v) = drop k (drop n u @ v)"
          using n k by (simp add: add.commute)
        ultimately have "k + n + n' \<le> length u" using 1(2)[of "k + n" n' g'] m' by simp
        then show "k + n' \<le> length (drop n u)" by simp
      qed
      then show ?thesis using m mu n by (simp add: sub_loop_hit)
    qed
  qed
qed

lemma anchored_lits [simp]:
  "anchored size18" "anchored size18_ref" "anchored margin2" "anchored margin2_ref"
  "anchored cell22" "anchored size16" "anchored free_ref" "anchored button_id"
  "anchored button_ref" "anchored start32" "anchored end32" "anchored bottom24"
  by (simp_all add: anchored_def size18_def size18_ref_def margin2_def margin2_ref_def cell22_def
      size16_def free_ref_def button_id_def button_ref_def start32_def end32_def bottom24_def str_def)

lemma anchored_an: "anchored w \<Longrightarrow> prefix w s \<Longrightarrow> prefix [97, 110] s"
  by (auto simp: anchored_def intro: prefix_order.trans)

lemma anchored_ne: "anchored w \<Longrightarrow> w \<noteq> []"
  by (auto simp: anchored_def)

lemma occurrences_card:
  "occurrences l s = card {k. k < length s \<and> prefix l (drop k s)}"
proof (induction s)
  case Nil
  then show ?case by simp
next
  case (Cons c s)
  let ?A = "{k. k < length s \<and> prefix l (drop k s)}"
  let ?B = "{k. k < length (c # s) \<and> prefix l (drop k (c # s))}"
  have B: "?B = (if prefix l (c # s) then {0} else {}) \<union> Suc ` ?A"
  proof (intro set_eqI iffI)
    fix k assume "k \<in> ?B"
    then show "k \<in> (if prefix l (c # s) then {0} else {}) \<union> Suc ` ?A"
      by (cases k) auto
  next
    fix k assume "k \<in> (if prefix l (c # s) then {0} else {}) \<union> Suc ` ?A"
    then show "k \<in> ?B" by (auto split: if_splits)
  qed
  have "card ?B = (if prefix l (c # s) then 1 else 0) + card (Suc ` ?A)"
    unfolding B by (subst card_Un_disjoint) (auto split: if_splits)
  then show ?case using Cons by (simp add: card_image)
qed

lemma occurrences_skip:
  assumes "anchored l"
  shows "occurrences l (l @ s) = Suc (occurrences l s)"
proof -
  have "occurrences l (drop i l @ s) = occurrences l s" if "0 < i" "i \<le> length l" for i
    using that
  proof (induction "length l - i" arbitrary: i)
    case 0
    then show ?case by simp
  next
    case (Suc m)
    then have i: "i < length l" by simp
    then obtain c where d: "drop i l = c # drop (Suc i) l" by (metis Cons_nth_drop_Suc)
    have "\<not> prefix l (drop i l @ s)"
    proof
      assume p: "prefix l (drop i l @ s)"
      have "prefix l (drop 0 (l @ s))" by simp
      moreover have "prefix [97, 110] (drop i (l @ s))"
        using anchored_an[OF assms p] i by simp
      ultimately have "0 + length l \<le> i" using anchored_no_overlap[OF assms] Suc.prems(1) by blast
      with i show False by simp
    qed
    moreover have "occurrences l (drop (Suc i) l @ s) = occurrences l s"
      using Suc.hyps(1)[of "Suc i"] Suc.hyps(2) Suc.prems by simp
    ultimately show ?case using d by simp
  qed
  note tail = this
  from anchored_ne[OF assms] obtain c l' where l: "l = c # l'" by (cases l) auto
  have "occurrences l (l @ s) = 1 + occurrences l (drop 1 l @ s)" using l by simp
  also have "occurrences l (drop 1 l @ s) = occurrences l s"
  proof (cases "length l = 1")
    case True
    then show ?thesis using l by simp
  next
    case False
    then show ?thesis using tail[of 1] l by simp
  qed
  finally show ?thesis by simp
qed

lemma join_Cons: "xs \<noteq> [] \<Longrightarrow> join sep (x # xs) = x @ sep @ join sep xs"
  by (cases xs) auto

lemma join_Cons_hd: "join sep ((c # p) # ps) = c # join sep (p # ps)"
  by (cases ps) auto

lemma prefix_join: "prefix p (join sep (p # ps))"
  by (cases ps) auto

lemma local_re_Literal: "l \<noteq> [] \<Longrightarrow> local_re (Literal l)"
  unfolding local_re_def match_literal_iff
  by (auto dest: prefix_length_le simp: prefix_def)

lemma sub2_hit: "sub_loop pattern2 repl2 (margin2 @ s) = margin2_ref @ sub_loop pattern2 repl2 s"
proof -
  have "match_re pattern2 (margin2 @ s) = Some (length margin2, Map.empty)"
    by (simp add: pattern_eqs match_literal_iff)
  moreover have "0 < length margin2" using anchored_ne[of margin2] by simp
  ultimately show ?thesis by (simp add: sub_loop_hit repl_eqs)
qed

lemma sub2_skip:
  assumes "\<not> prefix margin2 (c # s)"
  shows "sub_loop pattern2 repl2 (c # s) = c # sub_loop pattern2 repl2 s"
proof -
  have "match_re pattern2 (c # s) = None"
    using assms match_literal_iff[of margin2 "c # s"] unfolding pattern_eqs
    by (cases "match_re (Literal margin2) (c # s)") auto
  then show ?thesis by (rule sub_loop_skip)
qed

lemma an_in_anchored:
  assumes "anchored X" "prefix [97, 110] (drop p (X @ T))"
  shows "p = 0 \<or> length X \<le> p"
proof (cases "p = 0")
  case False
  have "prefix X (drop 0 (X @ T))" by simp
  from anchored_no_overlap[OF assms(1) this assms(2)] False show ?thesis by simp
qed simp

lemma an_in_spaces:
  assumes "list_all isspace ws" "prefix [97, 110] (drop p (ws @ T))"
  shows "length ws \<le> p"
proof (rule ccontr)
  assume "\<not> length ws \<le> p"
  then have p: "p < length ws" by simp
  then have "drop p (ws @ T) = ws ! p # drop (Suc p) ws @ T" by (simp add: Cons_nth_drop_Suc)
  with assms(2) have "ws ! p = 97" by simp
  moreover have "isspace (ws ! p)" using assms(1) p by (simp add: list_all_length)
  ultimately show False by simp
qed

lemma drop_append_ge: "length xs \<le> n \<Longrightarrow> drop n (xs @ ys) = drop (n - length xs) ys"
  by simp

lemma lit_conflicts:
  "prefix end32 s \<Longrightarrow> prefix start32 s \<Longrightarrow> False"
  "prefix bottom24 s \<Longrightarrow> prefix start32 s \<Longrightarrow> False"
proof -
  have "\<not> prefix end32 start32" "\<not> prefix start32 end32" "\<not> prefix bottom24 start32"
    "\<not> prefix start32 bottom24"
    by (simp_all add: start32_def end32_def bottom24_def str_def)
  then show "prefix end32 s \<Longrightarrow> prefix start32 s \<Longrightarrow> False"
    "prefix bottom24 s \<Longrightarrow> prefix start32 s \<Longrightarrow> False"
    by (metis prefix_same_cases)+
qed

lemma local_re_pattern5: "local_re pattern5"
  unfolding local_re_def
proof (intro allI impI)
  fix s n g assume "match_re pattern5 s = Some (n, g)"
  then obtain ws1 ws2 rest where w: "spaces ws1" "spaces ws2"
    and s: "s = start32 @ ws1 @ end32 @ ws2 @ bottom24 @ rest"
    and n: "n = length (start32 @ ws1 @ end32 @ ws2 @ bottom24)" and g: "g = Map.empty"
    unfolding match_pattern5_iff by blast
  have t: "take n s = start32 @ ws1 @ end32 @ ws2 @ bottom24" using s n by simp
  have "match_re pattern5 (take n s @ x) = Some (n, g)" for x
    unfolding t match_pattern5_iff using w n g by auto
  moreover have "0 < n" using n by simp
  moreover have "n \<le> length s" using s n by simp
  ultimately show "0 < n \<and> n \<le> length s \<and> (\<forall>x. match_re pattern5 (take n s @ x) = Some (n, g))"
    by blast
qed

lemma pattern5_no_straddle:
  assumes k: "k < length pre" and m: "match_re pattern5 (drop k (pre @ start32 @ T)) = Some (n, g)"
  shows "k + n \<le> length pre"
proof (rule ccontr)
  assume "\<not> k + n \<le> length pre"
  then have pn: "length pre - k < n" using k by arith
  let ?p = "length pre - k"
  from m obtain ws1 ws2 rest where w: "spaces ws1" "spaces ws2"
    and s: "drop k (pre @ start32 @ T) = start32 @ ws1 @ end32 @ ws2 @ bottom24 @ rest"
    and n: "n = length (start32 @ ws1 @ end32 @ ws2 @ bottom24)"
    unfolding match_pattern5_iff by blast
  have w': "list_all isspace ws1" "list_all isspace ws2" using w by (auto simp: spaces_def)
  have at: "drop ?p (start32 @ ws1 @ end32 @ ws2 @ bottom24 @ rest) = start32 @ T"
    unfolding s[symmetric] using k by simp
  then have an0: "prefix [97, 110] (drop ?p (start32 @ ws1 @ end32 @ ws2 @ bottom24 @ rest))"
    using anchored_an[OF anchored_lits(10), of "start32 @ T"] by simp
  have p0: "length start32 \<le> ?p" using an_in_anchored[OF anchored_lits(10) an0] k by simp
  define p1 where "p1 = ?p - length start32"
  have at1: "drop p1 (ws1 @ end32 @ ws2 @ bottom24 @ rest) = start32 @ T"
    unfolding p1_def drop_append_ge[OF p0, symmetric] by (rule at)
  then have an1: "prefix [97, 110] (drop p1 (ws1 @ end32 @ ws2 @ bottom24 @ rest))"
    using anchored_an[OF anchored_lits(10), of "start32 @ T"] by simp
  have q1: "length ws1 \<le> p1" by (rule an_in_spaces[OF w'(1) an1])
  define p2 where "p2 = p1 - length ws1"
  have at2: "drop p2 (end32 @ ws2 @ bottom24 @ rest) = start32 @ T"
    unfolding p2_def drop_append_ge[OF q1, symmetric] by (rule at1)
  then have an2: "prefix [97, 110] (drop p2 (end32 @ ws2 @ bottom24 @ rest))"
    using anchored_an[OF anchored_lits(10), of "start32 @ T"] by simp
  have "p2 \<noteq> 0"
  proof
    assume "p2 = 0"
    with at2 have "prefix end32 (start32 @ T)" by (metis drop0 prefixI)
    then show False by (rule lit_conflicts(1)) simp
  qed
  then have q2: "length end32 \<le> p2" using an_in_anchored[OF anchored_lits(11) an2] by simp
  define p3 where "p3 = p2 - length end32"
  have at3: "drop p3 (ws2 @ bottom24 @ rest) = start32 @ T"
    unfolding p3_def drop_append_ge[OF q2, symmetric] by (rule at2)
  then have an3: "prefix [97, 110] (drop p3 (ws2 @ bottom24 @ rest))"
    using anchored_an[OF anchored_lits(10), of "start32 @ T"] by simp
  have q3: "length ws2 \<le> p3" by (rule an_in_spaces[OF w'(2) an3])
  define p4 where "p4 = p3 - length ws2"
  have at4: "drop p4 (bottom24 @ rest) = start32 @ T"
    unfolding p4_def drop_append_ge[OF q3, symmetric] by (rule at3)
  then have an4: "prefix [97, 110] (drop p4 (bottom24 @ rest))"
    using anchored_an[OF anchored_lits(10), of "start32 @ T"] by simp
  have "p4 \<noteq> 0"
  proof
    assume "p4 = 0"
    with at4 have "prefix bottom24 (start32 @ T)" by (metis drop0 prefixI)
    then show False by (rule lit_conflicts(2)) simp
  qed
  then have q4: "length bottom24 \<le> p4" using an_in_anchored[OF anchored_lits(12) an4] by simp
  have "n \<le> ?p" using p0 q1 q2 q3 q4 n unfolding p1_def p2_def p3_def p4_def by simp
  with pn show False by simp
qed

lemma sub5_block:
  assumes "spaces ws1" "spaces ws2"
  shows "sub_loop pattern5 repl5 (pre @ start32 @ ws1 @ end32 @ ws2 @ bottom24 @ post)
       = sub_loop pattern5 repl5 pre @ block_ref @ sub_loop pattern5 repl5 post"
proof -
  let ?b = "start32 @ ws1 @ end32 @ ws2 @ bottom24"
  have "sub_loop pattern5 repl5 (pre @ start32 @ ws1 @ end32 @ ws2 @ bottom24 @ post)
       = sub_loop pattern5 repl5 pre @ sub_loop pattern5 repl5 (start32 @ ws1 @ end32 @ ws2 @ bottom24 @ post)"
    by (rule sub_loop_append[OF local_re_pattern5]) (rule pattern5_no_straddle)
  moreover have "match_re pattern5 (?b @ post) = Some (length ?b, Map.empty)"
    unfolding match_pattern5_iff using assms by auto
  then have "sub_loop pattern5 repl5 (?b @ post) = block_ref @ sub_loop pattern5 repl5 post"
    by (subst sub_loop_hit) (auto simp: repl_eqs)
  ultimately show ?thesis by simp
qed

lemma scans_pattern1: "scans pattern1 is_cell_id size18"
  unfolding scans_def match_pattern1_iff is_cell_id_def
proof (intro allI iffI)
  fix s n g
  assume "\<exists>r c mid rest. digits r \<and> digits c \<and> s = cell_id r c @ mid @ size18 @ rest \<and>
        \<not> sublist size18 (mid @ butlast size18) \<and>
        n = length (cell_id r c) + length mid + length size18 \<and> g = [1 \<mapsto> cell_id r c @ mid]"
  then obtain r c mid rest where *: "digits r" "digits c" "s = cell_id r c @ mid @ size18 @ rest"
    "\<not> sublist size18 (mid @ butlast size18)"
    "n = length (cell_id r c) + length mid + length size18" "g = [1 \<mapsto> cell_id r c @ mid]"
    by (elim exE conjE)
  show "\<exists>a mid rest. (\<exists>r c. digits r \<and> digits c \<and> a = cell_id r c) \<and> s = a @ mid @ size18 @ rest \<and>
        \<not> sublist size18 (mid @ butlast size18) \<and>
        n = length a + length mid + length size18 \<and> g = [1 \<mapsto> a @ mid]"
    using * by (intro exI[of _ "cell_id r c"] exI[of _ mid] exI[of _ rest]) auto
next
  fix s n g
  assume "\<exists>a mid rest. (\<exists>r c. digits r \<and> digits c \<and> a = cell_id r c) \<and> s = a @ mid @ size18 @ rest \<and>
        \<not> sublist size18 (mid @ butlast size18) \<and>
        n = length a + length mid + length size18 \<and> g = [1 \<mapsto> a @ mid]"
  then obtain a mid rest r c where *: "digits r" "digits c" "a = cell_id r c"
    "s = a @ mid @ size18 @ rest" "\<not> sublist size18 (mid @ butlast size18)"
    "n = length a + length mid + length size18" "g = [1 \<mapsto> a @ mid]"
    by (elim exE conjE)
  show "\<exists>r c mid rest. digits r \<and> digits c \<and> s = cell_id r c @ mid @ size18 @ rest \<and>
        \<not> sublist size18 (mid @ butlast size18) \<and>
        n = length (cell_id r c) + length mid + length size18 \<and> g = [1 \<mapsto> cell_id r c @ mid]"
    using * by (intro exI[of _ r] exI[of _ c] exI[of _ mid] exI[of _ rest]) auto
qed


lemma scansI:
  assumes "scans r H b" "H a" "\<not> sublist b (mid @ butlast b)"
  shows "match_re r (a @ mid @ b @ rest) = Some (length a + length mid + length b, [1 \<mapsto> a @ mid])"
  using assms unfolding scans_def by blast

lemma scansD:
  assumes "scans r H b" "match_re r s = Some (n, g)"
  obtains a mid rest where "H a" "s = a @ mid @ b @ rest" "\<not> sublist b (mid @ butlast b)"
    "n = length a + length mid + length b" "g = [1 \<mapsto> a @ mid]"
  using assms unfolding scans_def by blast

lemma scans_local:
  assumes "scans r H b" "b \<noteq> []"
  shows "local_re r"
  unfolding local_re_def
proof (intro allI impI)
  fix s n g assume m: "match_re r s = Some (n, g)"
  from scansD[OF assms(1) m] obtain a mid rest where *: "H a" "s = a @ mid @ b @ rest"
    "\<not> sublist b (mid @ butlast b)" "n = length a + length mid + length b" "g = [1 \<mapsto> a @ mid]"
    by blast
  have t: "take n s = a @ mid @ b" using * by simp
  have "match_re r (take n s @ x) = Some (n, g)" for x
    using scansI[OF assms(1) *(1,3), of x] * t by simp
  moreover have "0 < n" "n \<le> length s" using * assms(2) by auto
  ultimately show "0 < n \<and> n \<le> length s \<and> (\<forall>x. match_re r (take n s @ x) = Some (n, g))"
    by blast
qed

lemma scan_hit:
  assumes "scans r H b" "b \<noteq> []" "H a" "\<not> sublist b (mid @ butlast b)"
  shows "sub_loop r [TGroup 1, TLiteral b'] (a @ mid @ b @ rest)
       = a @ mid @ b' @ sub_loop r [TGroup 1, TLiteral b'] rest"
  using scansI[OF assms(1,3,4), of rest] assms(2)
  by (subst sub_loop_hit) auto

lemma first_occ_none:
  assumes "\<not> sublist b (mid @ butlast b)" "b \<noteq> []" "i < length mid"
  shows "\<not> prefix b (drop i (mid @ b @ rest))"
  using first_occ_iff[OF assms(2), of "length mid" "mid @ b @ rest"] assms(1,3) by blast




lemma prefix_at: "prefix w (drop (length x) (x @ w @ y))"
  by simp

lemma scan_walk:
  assumes sc: "scans r H b"
    and Ha: "\<And>w. H w \<Longrightarrow> anchored w"
    and b: "anchored b"
    and conflict: "\<And>w s. H w \<Longrightarrow> prefix w s \<Longrightarrow> prefix b s \<Longrightarrow> False"
    and a: "H a" and first: "\<not> sublist b (mid @ butlast b)"
  shows "\<exists>u g. pre @ a @ mid = u @ g \<and> suffix (a @ mid) g \<and>
           sub_loop r [TGroup 1, TLiteral b'] (pre @ a @ mid @ b @ post)
         = sub_loop r [TGroup 1, TLiteral b'] u @ g @ b' @ sub_loop r [TGroup 1, TLiteral b'] post"
proof (induction pre rule: length_induct)
  case (1 pre)
  let ?sub = "sub_loop r [TGroup 1, TLiteral b']"
  let ?d = "pre @ a @ mid @ b @ post"
  have bne: "b \<noteq> []" by (rule anchored_ne[OF b])
  have loc: "local_re r" by (rule scans_local[OF sc bne])
  have m0: "match_re r (a @ mid @ b @ post) = Some (length a + length mid + length b, [1 \<mapsto> a @ mid])"
    by (rule scansI[OF sc a first])
  show ?case
  proof (cases "match_re r ?d")
    case None
    with m0 obtain c pre' where pre: "pre = c # pre'" by (cases pre) auto
    from 1 pre obtain u g where ug: "pre' @ a @ mid = u @ g" "suffix (a @ mid) g"
      "?sub (pre' @ a @ mid @ b @ post) = ?sub u @ g @ b' @ ?sub post"
      by (metis impossible_Cons linorder_not_less order_refl)
    have eq: "(c # u) @ (g @ b @ post) = ?d" using ug(1) pre by simp
    have "match_re r ((c # u) @ (g @ b @ post)) = None" unfolding eq by (rule None)
    then have "match_re r (c # u) = None" by (rule local_re_None[OF loc])
    then have "?sub (c # u) = c # ?sub u" by (rule sub_loop_skip)
    moreover have "?sub ?d = c # ?sub (pre' @ a @ mid @ b @ post)"
      using None pre by (simp add: sub_loop_skip)
    ultimately have "?sub ?d = ?sub (c # u) @ g @ b' @ ?sub post" using ug(3) by simp
    moreover have "pre @ a @ mid = (c # u) @ g" using ug(1) pre by simp
    ultimately show ?thesis using ug(2) by blast
  next
    case (Some p)
    obtain n g0 where p: "p = (n, g0)" by (cases p)
    have m: "match_re r ?d = Some (n, g0)" using Some p by simp
    from scansD[OF sc m] obtain a0 mid0 rest0 where *: "H a0" "?d = a0 @ mid0 @ b @ rest0"
      "\<not> sublist b (mid0 @ butlast b)" "n = length a0 + length mid0 + length b"
      "g0 = [1 \<mapsto> a0 @ mid0]" by blast
    have hit: "?sub ?d = a0 @ mid0 @ b' @ ?sub rest0"
      unfolding *(2) by (rule scan_hit[OF sc bne *(1,3)])
    show ?thesis
    proof (cases "n \<le> length pre")
      case True
      have npos: "0 < n" using * bne by simp
      have tk: "take n pre = a0 @ mid0 @ b"
      proof -
        have "take n pre = take n ?d" using True by simp
        also have "\<dots> = a0 @ mid0 @ b" unfolding *(2) using *(4) by simp
        finally show ?thesis .
      qed
      have dr: "rest0 = drop n pre @ a @ mid @ b @ post"
      proof -
        have "drop n ?d = drop n pre @ a @ mid @ b @ post" using True by simp
        moreover have "drop n ?d = rest0" unfolding *(2) using *(4) by simp
        ultimately show ?thesis by simp
      qed
      have "length (drop n pre) < length pre" using npos True by simp
      with 1 obtain u g where ug: "drop n pre @ a @ mid = u @ g" "suffix (a @ mid) g"
        "?sub (drop n pre @ a @ mid @ b @ post) = ?sub u @ g @ b' @ ?sub post"
        by blast
      let ?u = "(a0 @ mid0 @ b) @ u"
      have "?sub ?u = a0 @ mid0 @ b' @ ?sub u"
        using scan_hit[OF sc bne *(1,3), of b' u] by simp
      then have "?sub ?d = ?sub ?u @ g @ b' @ ?sub post" using hit dr ug(3) by simp
      moreover have "pre @ a @ mid = ?u @ g"
        using ug(1) tk append_take_drop_id[of n pre] by (metis append.assoc)
      ultimately show ?thesis using ug(2) by blast
    next
      case False
      then have npre: "length pre < n" by simp
      let ?q = "length a0 + length mid0"
      let ?Q = "length pre + length a + length mid"
      have q: "?q = ?Q"
      proof (cases "pre = []")
        case True
        with m m0 * show ?thesis by (simp add: bne)
      next
        case ne: False
        have at0: "prefix a0 (drop 0 ?d)" unfolding *(2) by simp
        have atq: "prefix b (drop ?q ?d)" unfolding *(2) using prefix_at[of b "a0 @ mid0" rest0] by simp
        have atp: "prefix a (drop (length pre) ?d)" by simp
        have atQ: "prefix b (drop ?Q ?d)" using prefix_at[of b "pre @ a @ mid" post] by simp
        have anp: "prefix [97, 110] (drop (length pre) ?d)" by (rule anchored_an[OF Ha[OF a] atp])
        have anq: "prefix [97, 110] (drop ?q ?d)" by (rule anchored_an[OF b atq])
        have i: "length a0 \<le> length pre"
          using anchored_no_overlap[OF Ha[OF *(1)] at0 anp] ne by simp
        have ii: "length pre \<le> ?q"
        proof (rule ccontr)
          assume "\<not> length pre \<le> ?q"
          then have "?q < length pre" by simp
          from anchored_no_overlap[OF b atq anp this] npre *(4) show False by simp
        qed
        have iii: "?q \<noteq> length pre"
        proof
          assume "?q = length pre"
          with atq have "prefix b (drop (length pre) ?d)" by simp
          with conflict[OF a atp] show False by blast
        qed
        have iv: "length pre + length a \<le> ?q"
          using anchored_no_overlap[OF Ha[OF a] atp anq] ii iii by simp
        have v: "?Q \<le> ?q"
        proof (rule ccontr)
          assume "\<not> ?Q \<le> ?q"
          then have lt: "?q - (length pre + length a) < length mid" using iv by simp
          have "drop ?q ?d = drop (?q - (length pre + length a)) (mid @ b @ post)"
            using iv drop_append_ge[of "pre @ a" ?q "mid @ b @ post"] by simp
          with atq first_occ_none[OF first bne lt, of post] show False by simp
        qed
        have vi: "?q \<le> ?Q"
        proof (rule ccontr)
          assume "\<not> ?q \<le> ?Q"
          then have lt: "?Q - length a0 < length mid0" using i by simp
          have "length a0 \<le> ?Q" using i by simp
          then have "drop ?Q (a0 @ mid0 @ b @ rest0) = drop (?Q - length a0) (mid0 @ b @ rest0)"
            by (rule drop_append_ge)
          with atQ *(2) first_occ_none[OF *(3) bne lt, of rest0] show False by simp
        qed
        from v vi show ?thesis by simp
      qed
      have "take ?q ?d = a0 @ mid0" unfolding *(2) by simp
      moreover have "take ?Q ?d = pre @ a @ mid" by simp
      ultimately have am: "a0 @ mid0 = pre @ a @ mid" using q by simp
      have "drop (?q + length b) ?d = rest0" unfolding *(2) by simp
      moreover have "drop (?Q + length b) ?d = post" by simp
      ultimately have rp: "rest0 = post" using q by simp
      have "match_re r [] = None"
      proof (cases "match_re r []")
        case (Some x)
        then show ?thesis using local_re_extend(2,3)[OF loc, of "[]" "fst x" "snd x"] by simp
      qed simp
      then have "?sub [] = []" by (rule sub_loop_Nil)
      with hit am rp have "?sub ?d = ?sub [] @ (pre @ a @ mid) @ b' @ ?sub post"
        by (metis append.assoc append_Nil)
      moreover have "pre @ a @ mid = [] @ (pre @ a @ mid)" by simp
      moreover have "suffix (a @ mid) (pre @ a @ mid)" by (simp add: suffix_def)
      ultimately show ?thesis by blast
    qed
  qed
qed

lemma no_an_no_a: "97 \<notin> set xs \<Longrightarrow> no_an xs"
  by (induction xs rule: no_an.induct) auto

lemma no_an_append: "no_an xs \<Longrightarrow> no_an ys \<Longrightarrow> no_an (xs @ ys)"
proof (induction xs rule: no_an.induct)
  case 1
  then show ?case by simp
next
  case (2 x)
  then show ?case by (cases ys) auto
next
  case (3 x y zs)
  then show ?case by simp
qed

lemma anchored_cell_id:
  assumes "is_cell_id w"
  shows "anchored w"
proof -
  from assms obtain r c where d: "digits r" "digits c" and w: "w = cell_id r c"
    by (auto simp: is_cell_id_def)
  have "97 \<notin> set r" "97 \<notin> set c" using d by (auto simp: digits_def list_all_iff)
  then have "no_an (r @ str ''_'' @ c @ str ''\"'')"
    by (intro no_an_no_a) (auto simp: str_def)
  moreover have "no_an (tl cell_prefix)" by (simp add: cell_prefix_def str_def)
  ultimately have "no_an (tl cell_prefix @ r @ str ''_'' @ c @ str ''\"'')" by (rule no_an_append[rotated])
  moreover have "tl w = tl cell_prefix @ r @ str ''_'' @ c @ str ''\"''"
    unfolding w cell_id_def by (simp add: cell_prefix_def str_def)
  moreover have "prefix [97, 110] w" unfolding w cell_id_def by (simp add: cell_prefix_def str_def)
  ultimately show ?thesis by (simp add: anchored_def)
qed

lemma incomparable:
  assumes "\<not> prefix v w" "\<not> prefix w v" "prefix v s" "prefix w s"
  shows False
  using assms prefix_same_cases by blast

lemma cell_id_conflict:
  assumes "is_cell_id w" "prefix w s" "prefix size18 s"
  shows False
proof -
  from assms(1) have "prefix cell_prefix w" by (auto simp: is_cell_id_def cell_id_def)
  from this assms(2) have "prefix cell_prefix s" by (rule prefix_order.trans)
  moreover have "\<not> prefix cell_prefix size18" "\<not> prefix size18 cell_prefix"
    by (simp_all add: cell_prefix_def size18_def str_def)
  ultimately show False using assms(3) incomparable by blast
qed













text \<open>
  The text read from a file consists of scalar values, the rules keep it so, and such a
  text can be encoded: \<^verbatim>\<open>f.write\<close> of the script cannot fail on the encoding.
\<close>

lemma decode_scalar: "decode_utf8 bs = Some s \<Longrightarrow> list_all scalar s"
proof (induction bs arbitrary: s rule: decode_utf8.induct)
  case 1
  then show ?case by simp
next
  case (2 b bs)
  show ?case
    using "2.prems" "2.IH"
    by (auto simp: scalar_def continuation_def split: if_splits list.splits)
qed

lemma universal_newlines_scalar: "list_all scalar s \<Longrightarrow> list_all scalar (universal_newlines s)"
  by (induction s rule: universal_newlines.induct) (auto simp: scalar_def)

lemma write_newlines_scalar: "list_all scalar s \<Longrightarrow> list_all scalar (write_newlines pf s)"
  by (induction s) (cases pf; auto simp: write_newlines_def scalar_def)+

lemma encode_scalar: "list_all scalar s \<Longrightarrow> \<exists>bs. encode_utf8 s = Some bs"
  by (induction s) (auto simp: scalar_def encode_point_def)

lemma matches_from_input:
  "(s', g') \<in> set (matches r s g) \<Longrightarrow>
     set s' \<subseteq> set s \<and> (\<forall>k v. g' k = Some v \<longrightarrow> g k = Some v \<or> set v \<subseteq> set s)"
proof (induction r arbitrary: s g s' g')
  case (Literal l)
  then show ?case by (auto simp: matches.simps split: if_splits dest: in_set_dropD)
next
  case (Seq a b)
  from Seq.prems obtain s1 g1 where 1: "(s1, g1) \<in> set (matches a s g)"
    and 2: "(s', g') \<in> set (matches b s1 g1)"
    by (auto simp: matches.simps)
  from Seq.IH(1)[OF 1] Seq.IH(2)[OF 2] show ?case by blast
next
  case (MaxRepeat lo cs)
  then show ?case by (auto simp: matches.simps dest: in_set_dropD)
next
  case (MinRepeat lo cs)
  then show ?case by (auto simp: matches.simps dest: in_set_dropD)
next
  case (Group k r)
  from Group.prems obtain g1 where 1: "(s', g1) \<in> set (matches r s g)"
    and g': "g' = g1(k \<mapsto> take (length s - length s') s)"
    by (auto simp: matches.simps)
  have "set (take (length s - length s') s) \<subseteq> set s" by (rule set_take_subset)
  with Group.IH[OF 1] g' show ?case by auto
qed

lemma match_re_from_input:
  assumes "match_re r s = Some (n, g)" "g k = Some v"
  shows "set v \<subseteq> set s"
proof -
  from assms(1) obtain s' rest where "matches r s Map.empty = (s', g) # rest"
    by (auto simp: match_re_def split: list.splits)
  then have "(s', g) \<in> set (matches r s Map.empty)" by simp
  from matches_from_input[OF this] assms(2) show ?thesis by auto
qed

lemma expand_from_input:
  assumes "\<And>k v. g k = Some v \<Longrightarrow> set v \<subseteq> A"
  shows "set (expand t g) \<subseteq> A \<union> literals t"
  using assms
proof (induction t)
  case Nil
  show ?case by simp
next
  case (Cons i t)
  have IH: "set (expand t g) \<subseteq> A \<union> literals t" by (rule Cons.IH) (rule Cons.prems)
  show ?case
  proof (cases i)
    case (TLiteral l)
    with IH show ?thesis by auto
  next
    case (TGroup k)
    show ?thesis
    proof (cases "g k")
      case None
      with TGroup IH show ?thesis by auto
    next
      case (Some v)
      then have "set v \<subseteq> A" by (rule Cons.prems)
      with Some TGroup IH show ?thesis by auto
    qed
  qed
qed

lemma sub_loop_from_input: "set (sub_loop r t s) \<subseteq> set s \<union> literals t"
proof (induction r t s rule: sub_loop.induct)
  case (1 r t s)
  show ?case
  proof (cases "match_re r s")
    case None
    show ?thesis
    proof (cases s)
      case Nil
      then show ?thesis using None by (simp add: sub_loop.simps)
    next
      case (Cons c s')
      from "1.IH"(1)[OF None Cons] Cons None show ?thesis
        by (auto simp: sub_loop.simps[of r t "c # s'"])
    qed
  next
    case (Some ng)
    obtain n g where ng: "ng = (n, g)" by (cases ng)
    have m: "match_re r s = Some (n, g)" using Some ng by simp
    have e: "set (expand t g) \<subseteq> set s \<union> literals t"
      by (rule expand_from_input) (rule match_re_from_input[OF m])
    show ?thesis
    proof (cases "0 < n")
      case True
      have "set (sub_loop r t (drop n s)) \<subseteq> set (drop n s) \<union> literals t"
        using "1.IH"(2)[OF Some ng[symmetric] True] .
      moreover have "set (drop n s) \<subseteq> set s" by (rule set_drop_subset)
      ultimately show ?thesis using e m True by (auto simp: sub_loop.simps[of r t s])
    next
      case False
      show ?thesis
      proof (cases s)
        case Nil
        then show ?thesis using e m False by (auto simp: sub_loop.simps[of r t "[]"])
      next
        case (Cons c s')
        from "1.IH"(3)[OF Some ng[symmetric] False Cons] Cons e m False show ?thesis
          by (auto simp: sub_loop.simps[of r t "c # s'"])
      qed
    qed
  qed
qed

lemma str_scalar: "c \<in> set (str s) \<Longrightarrow> scalar c"
proof -
  assume "c \<in> set (str s)"
  then obtain x where "c = of_char x" by (auto simp: str_def)
  moreover have "(of_char x::nat) < 256" by simp
  then have "(of_char x::nat) < 55296" by (rule less_le_trans) simp
  ultimately show ?thesis by (simp add: scalar_def)
qed

lemma literals_scalar:
  "c \<in> literals repl1 \<Longrightarrow> scalar c" "c \<in> literals repl2 \<Longrightarrow> scalar c"
  "c \<in> literals repl3 \<Longrightarrow> scalar c" "c \<in> literals repl4 \<Longrightarrow> scalar c"
  "c \<in> literals repl5 \<Longrightarrow> scalar c"
  by (auto simp: repl1_def repl2_def repl3_def repl4_def repl5_def scalar_def dest: str_scalar)

lemma sub_loop_scalar:
  assumes "list_all scalar s" "\<And>c. c \<in> literals t \<Longrightarrow> scalar c"
  shows "list_all scalar (sub_loop r t s)"
  using sub_loop_from_input[of r t s] assms by (auto simp: list_all_iff)

lemma transform_scalar:
  assumes "list_all scalar s"
  shows "\<exists>c. transform s = Inr c \<and> list_all scalar c"
proof -
  have 1: "list_all scalar (sub_loop pattern1 repl1 s)"
    using assms literals_scalar(1) by (rule sub_loop_scalar)
  then have 2: "list_all scalar (sub_loop pattern2 repl2 (sub_loop pattern1 repl1 s))"
    using literals_scalar(2) by (rule sub_loop_scalar)
  then have 3: "list_all scalar (sub_loop pattern3 repl3 (sub_loop pattern2 repl2
      (sub_loop pattern1 repl1 s)))"
    using literals_scalar(3) by (rule sub_loop_scalar)
  then have 4: "list_all scalar (sub_loop pattern4 repl4 (sub_loop pattern3 repl3
      (sub_loop pattern2 repl2 (sub_loop pattern1 repl1 s))))"
    using literals_scalar(4) by (rule sub_loop_scalar)
  then have "list_all scalar (sub_loop pattern5 repl5 (sub_loop pattern4 repl4
      (sub_loop pattern3 repl3 (sub_loop pattern2 repl2 (sub_loop pattern1 repl1 s)))))"
    using literals_scalar(5) by (rule sub_loop_scalar)
  then show ?thesis by (simp add: transform_Inr)
qed

lemma file_write_ok:
  assumes "list_all scalar s"
  shows "\<exists>bytes. encode_utf8 (write_newlines (os w) s) = Some bytes \<and>
     file_write w p s = (case files w p of None \<Rightarrow> Inr w
       | Some f \<Rightarrow> Inr (w\<lparr>files := (files w)(p \<mapsto> f\<lparr>contents := contents f @ map char_of bytes\<rparr>)\<rparr>))"
proof -
  from encode_scalar[OF write_newlines_scalar[OF assms]]
  obtain bytes where "encode_utf8 (write_newlines (os w) s) = Some bytes" by blast
  then show ?thesis by (simp add: file_write_def)
qed







section \<open>The claims about single steps and about the run\<close>

text \<open>
  C1. Rule 1 on a text that holds a cell identifier \<^verbatim>\<open>android:id="@+id/cell_<r>_<c>"\<close> (\<open>r\<close>
  and \<open>c\<close> digit sequences), then any text \<open>mid\<close> (line breaks included), then
  \<^verbatim>\<open>android:textSize="18sp"\<close>, this being the first such attribute behind the identifier:
  that attribute is replaced by \<^verbatim>\<open>android:textSize="@dimen/bingo_cell_text_size"\<close>. The
  text before it splits into \<open>u\<close>, which lies before the match and is rewritten by rule
  1 on its own, and the group \<open>g\<close> of the match, which reaches back at least to the
  identifier and is kept as it is; the text behind is rewritten by rule 1 on its own.
\<close>

theorem rule1_replaces_first_18sp:
  assumes "digits r" "digits c" "\<not> sublist size18 (mid @ butlast size18)"
  shows "\<exists>u g u' post'. pre @ cell_id r c @ mid = u @ g \<and> suffix (cell_id r c @ mid) g \<and>
           rule1 u = Inr u' \<and> rule1 post = Inr post' \<and>
           rule1 (pre @ cell_id r c @ mid @ size18 @ post) = Inr (u' @ g @ size18_ref @ post')"
proof -
  have a: "is_cell_id (cell_id r c)" using assms(1,2) by (auto simp: is_cell_id_def)
  from scan_walk[OF scans_pattern1 anchored_cell_id anchored_lits(1) cell_id_conflict a assms(3),
      where pre=pre and b'=size18_ref and post=post]
  show ?thesis unfolding rules_Inr repl_eqs by auto
qed

theorem rule1_replaces_first_18sp_witness:
  "\<exists>u g u' post'.
      str ''<T '' @ cell_id (str ''0'') (str ''12'') @ str '' a=\"1\" '' = u @ g \<and>
      suffix (cell_id (str ''0'') (str ''12'') @ str '' a=\"1\" '') g \<and>
      rule1 u = Inr u' \<and> rule1 (str ''/>'') = Inr post' \<and>
      rule1 (str ''<T '' @ cell_id (str ''0'') (str ''12'') @ str '' a=\"1\" '' @ size18 @ str ''/>'')
        = Inr (u' @ g @ size18_ref @ post')"
proof -
  have "digits (str ''0'')" "digits (str ''12'')"
    by (simp_all add: digits_def str_def isdecimal_def decimal_runs_def)
  moreover have "\<not> sublist size18 (str '' a=\"1\" '' @ butlast size18)"
    by (simp add: size18_def str_def sublist_Cons_right)
  ultimately show ?thesis
    by (rule rule1_replaces_first_18sp)
qed

text \<open>
  C2. Rule 2 on any text \<open>d\<close>: the text is a sequence \<open>xs\<close> of pieces free of
  \<^verbatim>\<open>android:layout_margin="2dp"\<close>, joined by that attribute; the result is the same pieces
  joined by \<^verbatim>\<open>android:layout_margin="@dimen/cell_margin"\<close>. So every occurrence is
  replaced, nothing else changes, and the number of replacements, one less than the
  number of pieces, is the number of occurrences in \<open>d\<close>.
\<close>

theorem rule2_replaces_every_margin:
  "\<exists>xs. xs \<noteq> [] \<and> list_all (\<lambda>x. \<not> sublist margin2 x) xs \<and> d = join margin2 xs \<and>
        rule2 d = Inr (join margin2_ref xs) \<and> occurrences margin2 d = length xs - 1"
proof (induction d rule: length_induct)
  case (1 d)
  let ?sub = "sub_loop pattern2 repl2"
  show ?case
  proof (cases d)
    case Nil
    have "match_re pattern2 [] = None" by (rule no_match_Nil)
    then have "?sub [] = []" by (rule sub_loop_Nil)
    moreover have "\<not> sublist margin2 []" using anchored_ne[of margin2] by simp
    ultimately show ?thesis using Nil
      by (intro exI[of _ "[[]]"]) (simp add: rules_Inr)
  next
    case (Cons c d')
    show ?thesis
    proof (cases "prefix margin2 d")
      case True
      then obtain d'' where d: "d = margin2 @ d''" by (auto simp: prefix_def)
      have "length d'' < length d" using d anchored_ne[of margin2] by simp
      with 1 obtain xs where xs: "xs \<noteq> []" "list_all (\<lambda>x. \<not> sublist margin2 x) xs"
        "d'' = join margin2 xs" "rule2 d'' = Inr (join margin2_ref xs)"
        "occurrences margin2 d'' = length xs - 1" by blast
      have "\<not> sublist margin2 []" using anchored_ne[of margin2] by simp
      moreover have "d = join margin2 ([] # xs)" using d xs by (simp add: join_Cons)
      moreover have "rule2 d = Inr (join margin2_ref ([] # xs))"
        using d xs by (simp add: rules_Inr sub2_hit join_Cons)
      moreover have "occurrences margin2 d = length ([] # xs) - 1"
        using d xs by (cases xs) (simp_all add: occurrences_skip)
      ultimately show ?thesis using xs(2) by (intro exI[of _ "[] # xs"]) simp
    next
      case False
      have "length d' < length d" using Cons by simp
      with 1 obtain xs where xs: "xs \<noteq> []" "list_all (\<lambda>x. \<not> sublist margin2 x) xs"
        "d' = join margin2 xs" "rule2 d' = Inr (join margin2_ref xs)"
        "occurrences margin2 d' = length xs - 1" by blast
      then obtain p ps where pp: "xs = p # ps" by (cases xs) auto
      have "\<not> sublist margin2 (c # p)"
      proof
        assume "sublist margin2 (c # p)"
        then have "prefix margin2 (c # p)" using xs(2) pp by (simp add: sublist_Cons_right)
        moreover have "prefix (c # p) d" using Cons xs(3) pp prefix_join[of p margin2 ps] by simp
        ultimately show False using False by (metis prefix_order.trans)
      qed
      moreover have "d = join margin2 ((c # p) # ps)" using Cons xs(3) pp by (simp add: join_Cons_hd)
      moreover have "rule2 d = Inr (join margin2_ref ((c # p) # ps))"
        using False Cons xs(4) pp by (simp add: rules_Inr sub2_skip join_Cons_hd)
      moreover have "occurrences margin2 d = length ((c # p) # ps) - 1"
        using False Cons xs(5) pp by simp
      ultimately show ?thesis using xs(2) pp by (intro exI[of _ "(c # p) # ps"]) simp
    qed
  qed
qed

text \<open>
  C3, as the code has it. Rule 5 replaces every occurrence of the three-margin block,
  not only the first: a block (start margin \<^verbatim>\<open>32dp\<close>, whitespace, end margin \<^verbatim>\<open>32dp\<close>,
  whitespace, bottom margin \<^verbatim>\<open>24dp\<close>) between any \<open>pre\<close> and \<open>post\<close> is replaced, and
  \<open>pre\<close> and \<open>post\<close> are rewritten by rule 5 in the same way. The replacement is the start
  margin referencing \<^verbatim>\<open>@dimen/button_margin_horizontal\<close>, put where the block began, then
  a newline, eight spaces and the end margin referencing the same dimension, then a
  newline, eight spaces and the bottom margin referencing
  \<^verbatim>\<open>@dimen/button_margin_bottom\<close>. On the text below, with two blocks, both are replaced.
\<close>

theorem rule5_replaces_second_block:
  "rule5 (str ''<A android:layout_marginStart=\"32dp\" android:layout_marginEnd=\"32dp\" android:layout_marginBottom=\"24dp\"/><B android:layout_marginStart=\"32dp\" android:layout_marginEnd=\"32dp\" android:layout_marginBottom=\"24dp\"/>'')
     = Inr (str ''<A '' @ block_ref @ str ''/><B '' @ block_ref @ str ''/>'') \<and>
   rule5 (str ''<A android:layout_marginStart=\"32dp\" android:layout_marginEnd=\"32dp\" android:layout_marginBottom=\"24dp\"/><B android:layout_marginStart=\"32dp\" android:layout_marginEnd=\"32dp\" android:layout_marginBottom=\"24dp\"/>'')
     \<noteq> Inr (str ''<A '' @ block_ref @ str ''/><B android:layout_marginStart=\"32dp\" android:layout_marginEnd=\"32dp\" android:layout_marginBottom=\"24dp\"/>'')"
  by (simp add: rules_Inr str_def eval_simps matches.simps pattern5_def repl5_def block_ref_def)

theorem rule5_replaces_every_block:
  assumes "spaces ws1" "spaces ws2"
  shows "\<exists>p q. rule5 pre = Inr p \<and> rule5 post = Inr q \<and>
     rule5 (pre @ start32 @ ws1 @ end32 @ ws2 @ bottom24 @ post) = Inr (p @ block_ref @ q) \<and>
     block_ref = str ''android:layout_marginStart=\"@dimen/button_margin_horizontal\"'' @
        [10] @ replicate 8 32 @ str ''android:layout_marginEnd=\"@dimen/button_margin_horizontal\"'' @
        [10] @ replicate 8 32 @ str ''android:layout_marginBottom=\"@dimen/button_margin_bottom\"''"
proof -
  have "replicate 8 (32::nat) = str ''        ''"
    by (simp add: str_def numeral_eq_Suc)
  then show ?thesis
    using sub5_block[OF assms, of pre post] by (simp add: rules_Inr block_ref_def str_def)
qed

theorem rule5_replaces_every_block_witness:
  "\<exists>p q. rule5 (str ''<A '') = Inr p \<and> rule5 (str ''/>'') = Inr q \<and>
     rule5 (str ''<A '' @ start32 @ [10, 32] @ end32 @ [9] @ bottom24 @ str ''/>'')
       = Inr (p @ block_ref @ q)"
proof -
  have "spaces [10, 32]" "spaces [9]"
    by (simp_all add: spaces_def isspace_def whitespace_points_def)
  from rule5_replaces_every_block[OF this, of "str ''<A ''" "str ''/>''"]
  show ?thesis by blast
qed




text \<open>
  C5. There is an input with two \<^verbatim>\<open>cell_<r>_<c>\<close> blocks, the first without an
  \<^verbatim>\<open>android:textSize="18sp"\<close>, on which rule 1 skips into the second block: the one match
  starts at the identifier of the first block (position 3), its group spans both
  identifiers, and the \<^verbatim>\<open>18sp\<close> of the second block is replaced.
\<close>

theorem rule1_skips_into_next_cell:
  "rule1 (str ''<T android:id=\"@+id/cell_0_0\"/><T android:id=\"@+id/cell_0_1\" android:textSize=\"18sp\"/>'')
     = Inr (str ''<T android:id=\"@+id/cell_0_0\"/><T android:id=\"@+id/cell_0_1\" android:textSize=\"@dimen/bingo_cell_text_size\"/>'')
   \<and> map_option (\<lambda>(k, n, g). (k, n, g 1))
        (search_re pattern1 (str ''<T android:id=\"@+id/cell_0_0\"/><T android:id=\"@+id/cell_0_1\" android:textSize=\"18sp\"/>''))
     = Some (3, 81, Some (str ''android:id=\"@+id/cell_0_0\"/><T android:id=\"@+id/cell_0_1\" ''))"
  by (simp add: rules_Inr str_def eval_simps matches.simps pattern1_def repl1_def)

text \<open>
  C6. For each of the five rules: when its pattern matches nowhere in the current
  document, the step returns the document unchanged; and no step, nor the whole
  transform, raises an error on any text.
\<close>

theorem no_match_identity:
  "(search_re pattern1 d = None \<longrightarrow> rule1 d = Inr d) \<and>
   (search_re pattern2 d = None \<longrightarrow> rule2 d = Inr d) \<and>
   (search_re pattern3 d = None \<longrightarrow> rule3 d = Inr d) \<and>
   (search_re pattern4 d = None \<longrightarrow> rule4 d = Inr d) \<and>
   (search_re pattern5 d = None \<longrightarrow> rule5 d = Inr d) \<and>
   (\<exists>c1 c2 c3 c4 c5 c. rule1 d = Inr c1 \<and> rule2 d = Inr c2 \<and> rule3 d = Inr c3 \<and>
      rule4 d = Inr c4 \<and> rule5 d = Inr c5 \<and> transform d = Inr c)"
  by (simp add: rules_Inr transform_Inr search_None_sub_loop)

theorem no_match_identity_witness:
  "rule1 (str ''<Button/>'') = Inr (str ''<Button/>'') \<and>
   rule2 (str ''<Button/>'') = Inr (str ''<Button/>'') \<and>
   rule3 (str ''<Button/>'') = Inr (str ''<Button/>'') \<and>
   rule4 (str ''<Button/>'') = Inr (str ''<Button/>'') \<and>
   rule5 (str ''<Button/>'') = Inr (str ''<Button/>'')"
proof -
  have "search_re pattern1 (str ''<Button/>'') = None" "search_re pattern2 (str ''<Button/>'') = None"
    "search_re pattern3 (str ''<Button/>'') = None" "search_re pattern4 (str ''<Button/>'') = None"
    "search_re pattern5 (str ''<Button/>'') = None"
    by (simp_all add: str_def no_match_other_char no_match_Nil matches.simps)
  then show ?thesis
    using no_match_identity [of "str ''<Button/>''"] by blast
qed

text \<open>
  C7. When the layout file is missing, or is not readable, or is not writable, the run
  ends with the file-system error and leaves the world as it was: nothing is written
  and no confirmation is printed. The same holds when the bytes of the file are not
  UTF-8; a readable file is decoded before it is opened for writing, so for a file that
  is neither decodable nor writable the error is the one of the decoder. When the file
  is there, readable, decodable and writable, the run ends without an error, the file
  holds the encoded transform of the text read and the one confirmation line is
  printed. So every run that ends with an error has changed nothing, and every run that
  ends without one has printed the confirmation.
\<close>

theorem main_failure_atomic:
  "(files w layout_path = None \<longrightarrow> main w = (Some FileNotFoundError, w)) \<and>
   (\<forall>f. files w layout_path = Some f \<and> \<not> readable f \<longrightarrow> main w = (Some PermissionError, w)) \<and>
   (\<forall>f. files w layout_path = Some f \<and> readable f \<and>
        decode_utf8 (map of_char (contents f)) = None \<longrightarrow>
        main w = (Some UnicodeDecodeError, w)) \<and>
   (\<forall>f s. files w layout_path = Some f \<and> readable f \<and>
        decode_utf8 (map of_char (contents f)) = Some s \<and> \<not> writable f \<longrightarrow>
        main w = (Some PermissionError, w)) \<and>
   (\<forall>f s. files w layout_path = Some f \<and> readable f \<and>
        decode_utf8 (map of_char (contents f)) = Some s \<and> writable f \<longrightarrow>
        (\<exists>c bytes. transform (universal_newlines s) = Inr c \<and>
             encode_utf8 (write_newlines (os w) c) = Some bytes \<and>
             main w = (None, w\<lparr>files := (files w)(layout_path \<mapsto> f\<lparr>contents := map char_of bytes\<rparr>),
                                console := console w @ [str ''Layout updated successfully!'']\<rparr>))) \<and>
   (fst (main w) \<noteq> None \<longrightarrow> snd (main w) = w) \<and>
   (fst (main w) = None \<longrightarrow> console (snd (main w)) = console w @ [str ''Layout updated successfully!''])"
proof -
  let ?msg = "str ''Layout updated successfully!''"
  have 1: "main w = (Some FileNotFoundError, w)" if "files w layout_path = None"
    using that by (simp add: main_def open_read_def)
  have 2: "main w = (Some PermissionError, w)" if "files w layout_path = Some f" "\<not> readable f" for f
    using that by (simp add: main_def open_read_def)
  have 3: "main w = (Some UnicodeDecodeError, w)"
    if "files w layout_path = Some f" "readable f" "decode_utf8 (map of_char (contents f)) = None" for f
    using that by (simp add: main_def open_read_def file_read_def)
  have 4: "main w = (Some PermissionError, w)"
    if "files w layout_path = Some f" "readable f" "decode_utf8 (map of_char (contents f)) = Some s"
      "\<not> writable f" for f s
    using that transform_Inr[of "universal_newlines s"]
    by (simp add: main_def open_read_def file_read_def open_write_def)
  have 5: "\<exists>c bytes. transform (universal_newlines s) = Inr c \<and>
             encode_utf8 (write_newlines (os w) c) = Some bytes \<and>
             main w = (None, w\<lparr>files := (files w)(layout_path \<mapsto> f\<lparr>contents := map char_of bytes\<rparr>),
                                console := console w @ [?msg]\<rparr>)"
    if f: "files w layout_path = Some f" "readable f" "decode_utf8 (map of_char (contents f)) = Some s"
      "writable f" for f s
  proof -
    have "list_all scalar (universal_newlines s)"
      by (rule universal_newlines_scalar) (rule decode_scalar[OF f(3)])
    from transform_scalar[OF this] obtain c where c: "transform (universal_newlines s) = Inr c"
      "list_all scalar c" by blast
    let ?w' = "w\<lparr>files := (files w)(layout_path \<mapsto> f\<lparr>contents := []\<rparr>)\<rparr>"
    from file_write_ok[OF c(2), of ?w' layout_path] obtain bytes
      where b: "encode_utf8 (write_newlines (os w) c) = Some bytes"
        "file_write ?w' layout_path c
          = Inr (?w'\<lparr>files := (files ?w')(layout_path \<mapsto> f\<lparr>contents := map char_of bytes\<rparr>)\<rparr>)"
      by auto
    have "main w = (None, w\<lparr>files := (files w)(layout_path \<mapsto> f\<lparr>contents := map char_of bytes\<rparr>),
                                console := console w @ [?msg]\<rparr>)"
      using f c(1) b(2) by (simp add: main_def open_read_def file_read_def open_write_def print_def)
    with c(1) b(1) show ?thesis by blast
  qed
  have 6: "snd (main w) = w" if "fst (main w) \<noteq> None"
  proof (cases "files w layout_path")
    case None
    then show ?thesis using 1 by simp
  next
    case (Some f)
    show ?thesis
    proof (cases "readable f")
      case False
      then show ?thesis using 2[OF Some] by simp
    next
      case True
      show ?thesis
      proof (cases "decode_utf8 (map of_char (contents f))")
        case None
        then show ?thesis using 3[OF Some True] by simp
      next
        case s: (Some s)
        show ?thesis
        proof (cases "writable f")
          case False
          then show ?thesis using 4[OF Some True s] by simp
        next
          case wr: True
          from 5[OF Some True s wr] that show ?thesis by auto
        qed
      qed
    qed
  qed
  have 7: "console (snd (main w)) = console w @ [?msg]" if "fst (main w) = None"
  proof (cases "files w layout_path")
    case None
    then show ?thesis using 1 that by simp
  next
    case (Some f)
    show ?thesis
    proof (cases "readable f")
      case False
      then show ?thesis using 2[OF Some] that by simp
    next
      case True
      show ?thesis
      proof (cases "decode_utf8 (map of_char (contents f))")
        case None
        then show ?thesis using 3[OF Some True] that by simp
      next
        case s: (Some s)
        show ?thesis
        proof (cases "writable f")
          case False
          then show ?thesis using 4[OF Some True s] that by simp
        next
          case wr: True
          from 5[OF Some True s wr] show ?thesis by auto
        qed
      qed
    qed
  qed
  show ?thesis
    using 1 2 3 4 5 6 7 by blast
qed

theorem main_failure_atomic_witness:
  "main \<lparr>files = Map.empty, console = [], os = Windows\<rparr>
     = (Some FileNotFoundError, \<lparr>files = Map.empty, console = [], os = Windows\<rparr>) \<and>
   main \<lparr>files = [layout_path \<mapsto> \<lparr>contents = ''<Button/>'', readable = False, writable = True\<rparr>],
         console = [], os = Windows\<rparr>
     = (Some PermissionError,
        \<lparr>files = [layout_path \<mapsto> \<lparr>contents = ''<Button/>'', readable = False, writable = True\<rparr>],
         console = [], os = Windows\<rparr>) \<and>
   main \<lparr>files = [layout_path \<mapsto> \<lparr>contents = [CHR ''<'', CHR 0xFF], readable = True, writable = False\<rparr>],
         console = [], os = Windows\<rparr>
     = (Some UnicodeDecodeError,
        \<lparr>files = [layout_path \<mapsto> \<lparr>contents = [CHR ''<'', CHR 0xFF], readable = True, writable = False\<rparr>],
         console = [], os = Windows\<rparr>) \<and>
   main \<lparr>files = [layout_path \<mapsto> \<lparr>contents = ''<Button/>'', readable = True, writable = False\<rparr>],
         console = [], os = Windows\<rparr>
     = (Some PermissionError,
        \<lparr>files = [layout_path \<mapsto> \<lparr>contents = ''<Button/>'', readable = True, writable = False\<rparr>],
         console = [], os = Windows\<rparr>) \<and>
   main \<lparr>files = [layout_path \<mapsto> \<lparr>contents = [CHR ''<'', CHR ''B'', CHR ''/'', CHR ''>'', CHR 0x0D, CHR 0x0A, CHR 0x0D],
                                   readable = True, writable = True\<rparr>],
         console = [], os = Posix\<rparr>
     = (None,
        \<lparr>files = [layout_path \<mapsto> \<lparr>contents = [CHR ''<'', CHR ''B'', CHR ''/'', CHR ''>'', CHR 0x0A, CHR 0x0A],
                                   readable = True, writable = True\<rparr>],
         console = [str ''Layout updated successfully!''], os = Posix\<rparr>)"
proof -
  let ?e = "\<lparr>files = Map.empty, console = [], os = Windows\<rparr>"
  let ?w = "\<lambda>c r u pf. \<lparr>files = [layout_path \<mapsto> \<lparr>contents = c, readable = r, writable = u\<rparr>],
    console = [], os = pf\<rparr>"
  let ?bad = "[CHR ''<'', CHR 0xFF]"
  let ?crlf = "[CHR ''<'', CHR ''B'', CHR ''/'', CHR ''>'', CHR 0x0D, CHR 0x0A, CHR 0x0D]"
  have d: "decode_utf8 (map of_char ''<Button/>'') = Some (str ''<Button/>'')"
    "decode_utf8 (map of_char ?bad) = None"
    "decode_utf8 (map of_char ?crlf) = Some [60, 66, 47, 62, 13, 10, 13]"
    by (simp_all add: str_def)
  have t: "transform (universal_newlines [60, 66, 47, 62, 13, 10, 13]) = Inr [60, 66, 47, 62, 10, 10]"
    by (simp add: transform_Inr search_None_sub_loop no_match_other_char no_match_Nil)
  have e: "encode_utf8 (write_newlines Posix [60, 66, 47, 62, 10, 10]) = Some [60, 66, 47, 62, 10, 10]"
    by (simp add: write_newlines_def encode_point_def)
  have c: "char_of (60::nat) = CHR ''<''" "char_of (66::nat) = CHR ''B''"
    "char_of (47::nat) = CHR ''/''" "char_of (62::nat) = CHR ''>''" "char_of (10::nat) = CHR 0x0A"
    by (simp_all add: char_of_eq_iff)
  have 1: "main ?e = (Some FileNotFoundError, ?e)"
    using main_failure_atomic [of ?e] by simp
  have 2: "main (?w ''<Button/>'' False True Windows) = (Some PermissionError, ?w ''<Button/>'' False True Windows)"
    using main_failure_atomic [of "?w ''<Button/>'' False True Windows"] by simp
  have 3: "main (?w ?bad True False Windows) = (Some UnicodeDecodeError, ?w ?bad True False Windows)"
    using main_failure_atomic [of "?w ?bad True False Windows"] d(2) by simp
  have 4: "main (?w ''<Button/>'' True False Windows) = (Some PermissionError, ?w ''<Button/>'' True False Windows)"
    using main_failure_atomic [of "?w ''<Button/>'' True False Windows"] d(1) by simp
  have 5: "main (?w ?crlf True True Posix)
      = (None, \<lparr>files = [layout_path \<mapsto> \<lparr>contents = [CHR ''<'', CHR ''B'', CHR ''/'', CHR ''>'', CHR 0x0A, CHR 0x0A],
                                   readable = True, writable = True\<rparr>],
         console = [str ''Layout updated successfully!''], os = Posix\<rparr>)"
    using main_failure_atomic [of "?w ?crlf True True Posix"] d(3) t e by (simp add: c)
  show ?thesis using 1 2 3 4 5 by simp
qed





end
